theory Spec2Isabelle
  imports Complex_Main "HOL-Library.Word"
begin

section \<open>Data model\<close>

text \<open>
  A JavaScript string is a sequence of UTF-16 code units. Every day label of the parser is
  one code unit of the Basic Multilingual Plane, so a string is a list of 16-bit words.

  A clock time is a Number of minutes since midnight, a double (IEEE 754 binary64). The
  Numbers of the parser have no fraction: they are the period read from the digits of a
  token, and sums and products of such Numbers with 450 and 90. They are modelled by
  \<open>int\<close> with the rounding of the source written out (\<open>toDouble\<close> below); where a result
  is not finite the source has \<open>Infinity\<close>, which is modelled by the integer \<open>2 ^ 1024\<close>, above
  every finite double. The consolidator only compares and copies these Numbers, and sorts
  them by the sign of a difference, which is exact on this representation. The layout is
  modelled for minutes of magnitude below \<open>2 ^ 53\<close>, where its sums and differences are
  exact; its percentages are quotients and are modelled by \<open>real\<close>.
\<close>

type_synonym jsstring = "16 word list"

type_synonym DayIndex = nat

text \<open>
  \<open>TimetableEntry\<close> of \<open>types/timetable.ts\<close>. The field names of the source are Korean
  words; they are romanised here, in the order of the interface:
  gubun, hakjeongbeonho (the course code), gwamokmyeong (the title), bunban (the section
  code), isu, hakjeom, sisu, damdanggyosu, ganguisigan (the schedule string),
  ganguiyuhyeong.
\<close>

record TimetableEntry =
  gubun :: jsstring
  hakjeongbeonho :: jsstring
  gwamokmyeong :: jsstring
  bunban :: jsstring
  isu :: jsstring
  hakjeom :: jsstring
  sisu :: jsstring
  damdanggyosu :: jsstring
  ganguisigan :: jsstring
  ganguiyuhyeong :: jsstring

record LectureSlot =
  day :: DayIndex
  startMinutes :: int
  endMinutes :: int

section \<open>The time-string parser (\<open>utils/parseLectureTime.ts\<close>)\<close>

subsection \<open>String primitives of the language\<close>

text \<open>
  The code units that \<open>String.prototype.trim\<close> strips and that \<open>\s\<close> matches in a regular
  expression: the WhiteSpace and LineTerminator productions of ECMAScript.
\<close>

definition isWhiteSpace :: "16 word \<Rightarrow> bool" where
  "isWhiteSpace c \<longleftrightarrow>
     c = 0x9 \<or> c = 0xA \<or> c = 0xB \<or> c = 0xC \<or> c = 0xD \<or> c = 0x20 \<or> c = 0xA0 \<or>
     c = 0x1680 \<or> (0x2000 \<le> c \<and> c \<le> 0x200A) \<or> c = 0x2028 \<or> c = 0x2029 \<or>
     c = 0x202F \<or> c = 0x205F \<or> c = 0x3000 \<or> c = 0xFEFF"

text \<open>\<open>\d\<close> without the unicode flags: the ASCII digits.\<close>

definition isDigit :: "16 word \<Rightarrow> bool" where
  "isDigit c \<longleftrightarrow> 0x30 \<le> c \<and> c \<le> 0x39"

definition digitValue :: "16 word \<Rightarrow> int" where
  "digitValue c = int (unat c) - 48"

definition trim :: "jsstring \<Rightarrow> jsstring" where
  "trim s = rev (dropWhile isWhiteSpace (rev (dropWhile isWhiteSpace s)))"

text \<open>
  \<open>s.split(/\s+/)\<close>: the pieces of \<open>s\<close> between the maximal runs of white space. A run at
  the start or at the end of \<open>s\<close> leaves an empty piece there, and the empty string splits
  into one empty piece. The first argument is the piece read so far.
\<close>

function splitWs :: "jsstring \<Rightarrow> jsstring \<Rightarrow> jsstring list" where
  "splitWs cur [] = [cur]"
| "splitWs cur (c # cs) =
     (if isWhiteSpace c then cur # splitWs [] (dropWhile isWhiteSpace cs)
      else splitWs (cur @ [c]) cs)"
  by pat_completeness auto
termination
  by (relation "measure (\<lambda>(cur, s). length s)")
     (auto simp: le_imp_less_Suc length_dropWhile_le)

definition split :: "jsstring \<Rightarrow> jsstring list" where
  "split s = splitWs [] s"

text \<open>
  The double nearest to a non-negative integer. Below \<open>2 ^ 53\<close> every such integer is a
  double. From there on a double has 53 significant bits: an integer of \<open>53 + e\<close> bits is
  cut to the multiple \<open>q * 2 ^ e\<close> below it or moved to the next one, whichever is nearer,
  and to the one with even \<open>q\<close> when it lies halfway.
\<close>

function bitLength :: "int \<Rightarrow> nat" where
  "bitLength n = (if n \<le> 0 then 0 else Suc (bitLength (n div 2)))"
  by pat_completeness auto
termination
  by (relation "measure nat") auto

declare bitLength.simps [simp del]

definition roundNat :: "int \<Rightarrow> int" where
  "roundNat n =
     (if n < 2 ^ 53 then n
      else (let e = bitLength n - 53; q = n div 2 ^ e; r = n mod 2 ^ e; h = 2 ^ (e - 1)
            in (if h < r \<or> (r = h \<and> odd q) then q + 1 else q) * 2 ^ e))"

text \<open>
  \<open>Infinity\<close>, and the Number that an integer rounds to: the nearest double, and \<open>Infinity\<close>
  when that is \<open>2 ^ 1024\<close> or more. The sum and the product of two Numbers without fraction
  are \<open>toDouble\<close> of the sum and of the product of the integers.
\<close>

definition Infinity :: int where
  "Infinity = 2 ^ 1024"

definition toDouble :: "int \<Rightarrow> int" where
  "toDouble x =
     (let m = roundNat \<bar>x\<bar>; v = (if Infinity \<le> m then Infinity else m)
      in if x < 0 then - v else v)"

text \<open>
  \<open>parseInt(s, 10)\<close>: leading white space is skipped, one sign is read, then the longest
  run of decimal digits; \<open>None\<close> is NaN, the result when that run is empty. The result is the
  Number nearest to the integer that the digits denote (ECMAScript leaves the digits after
  the twentieth to the implementation; the engines round the integer of all the digits).
\<close>

definition decimalValue :: "jsstring \<Rightarrow> int" where
  "decimalValue ds = foldl (\<lambda>a d. a * 10 + digitValue d) 0 ds"

definition parseInt :: "jsstring \<Rightarrow> int option" where
  "parseInt s =
     (let t = dropWhile isWhiteSpace s;
          neg = (t \<noteq> [] \<and> hd t = 0x2D);
          u = (if t \<noteq> [] \<and> (hd t = 0x2B \<or> hd t = 0x2D) then tl t else t);
          ds = takeWhile isDigit u
      in if ds = [] then None
         else Some (if neg then - toDouble (decimalValue ds) else toDouble (decimalValue ds)))"

subsection \<open>The parser\<close>

text \<open>
  \<open>DAY_MAP\<close>: the seven day labels, Monday to Sunday, as code units
  (U+C6D4, U+D654, U+C218, U+BAA9, U+AE08, U+D1A0, U+C77C).
\<close>

definition DAY_MAP :: "jsstring \<Rightarrow> DayIndex option" where
  "DAY_MAP = map_of
     [([0xC6D4], 0), ([0xD654], 1), ([0xC218], 2), ([0xBAA9], 3),
      ([0xAE08], 4), ([0xD1A0], 5), ([0xC77C], 6)]"

definition PERIOD_START_MINUTES :: int where
  "PERIOD_START_MINUTES = 7 * 60 + 30"

definition PERIOD_DURATION_MINUTES :: int where
  "PERIOD_DURATION_MINUTES = 90"

definition periodToMinutes :: "int \<Rightarrow> int \<times> int" where
  "periodToMinutes period =
     (let start = toDouble (PERIOD_START_MINUTES + toDouble (period * PERIOD_DURATION_MINUTES))
      in (start, toDouble (start + PERIOD_DURATION_MINUTES)))"

text \<open>
  \<open>pair.match(/^(day label)(\d+)$/)\<close>: the two capture groups when the whole token is one
  day label followed by one digit or more, \<open>None\<close> otherwise.
\<close>

definition isDayLabel :: "16 word \<Rightarrow> bool" where
  "isDayLabel c \<longleftrightarrow>
     c = 0xC6D4 \<or> c = 0xD654 \<or> c = 0xC218 \<or> c = 0xBAA9 \<or> c = 0xAE08 \<or> c = 0xD1A0 \<or>
     c = 0xC77C"

definition matchPair :: "jsstring \<Rightarrow> (jsstring \<times> jsstring) option" where
  "matchPair pair =
     (case pair of
        [] \<Rightarrow> None
      | c # ds \<Rightarrow> if isDayLabel c \<and> ds \<noteq> [] \<and> list_all isDigit ds then Some ([c], ds) else None)"

text \<open>One round of the loop over the tokens: the slots pushed so far, then the token.\<close>

definition parseStep :: "LectureSlot list \<Rightarrow> jsstring \<Rightarrow> LectureSlot list" where
  "parseStep slots pair =
     (case matchPair pair of
        None \<Rightarrow> slots
      | Some (dayLabel, digits) \<Rightarrow>
          (case (DAY_MAP dayLabel, parseInt digits) of
             (Some d, Some period) \<Rightarrow>
               if period < 0 then slots
               else (let (start, end) = periodToMinutes period
                     in slots @ [\<lparr>day = d, startMinutes = start, endMinutes = end\<rparr>])
           | _ \<Rightarrow> slots))"

definition parseLectureTime :: "jsstring \<Rightarrow> LectureSlot list" where
  "parseLectureTime s =
     (let trimmed = trim s
      in if trimmed = [] then [] else foldl parseStep [] (split trimmed))"

subsection \<open>The parser as the specification words it\<close>

text \<open>
  The tokens of a string: its maximal runs of code units that are not white space.
\<close>

function spec_tokens :: "jsstring \<Rightarrow> jsstring list" where
  "spec_tokens s =
     (let r = dropWhile isWhiteSpace s
      in if r = [] then []
         else takeWhile (\<lambda>c. \<not> isWhiteSpace c) r
              # spec_tokens (dropWhile (\<lambda>c. \<not> isWhiteSpace c) r))"
  by pat_completeness auto
termination
proof (relation "measure length", goal_cases)
  case 1
  show ?case by simp
next
  case (2 s r)
  then obtain c cs where r: "r = c # cs" and c: "\<not> isWhiteSpace c"
    by (metis hd_dropWhile list.collapse)
  have "length (dropWhile (\<lambda>c. \<not> isWhiteSpace c) r) \<le> length cs"
    using r c by (simp add: length_dropWhile_le)
  also have "length cs < length r"
    using r by simp
  also have "length r \<le> length s"
    using 2 by (simp add: length_dropWhile_le)
  finally show ?case by simp
qed

text \<open>The Day Index of a day label, Monday (0) to Sunday (6).\<close>

definition spec_day :: "16 word \<Rightarrow> DayIndex option" where
  "spec_day c =
     (if c = 0xC6D4 then Some 0 else if c = 0xD654 then Some 1
      else if c = 0xC218 then Some 2 else if c = 0xBAA9 then Some 3
      else if c = 0xAE08 then Some 4 else if c = 0xD1A0 then Some 5
      else if c = 0xC77C then Some 6 else None)"

text \<open>
  The slot of a token: a day label followed by the digits of a period \<open>p\<close> gives the slot
  from \<open>450 + p * 90\<close> to 90 minutes later; any other token gives none.
\<close>

definition spec_slot :: "jsstring \<Rightarrow> LectureSlot option" where
  "spec_slot tok =
     (case tok of
        [] \<Rightarrow> None
      | c # ds \<Rightarrow>
          (case spec_day c of
             None \<Rightarrow> None
           | Some d \<Rightarrow>
               if ds \<noteq> [] \<and> list_all isDigit ds
               then Some \<lparr>day = d, startMinutes = 450 + decimalValue ds * 90,
                          endMinutes = 450 + decimalValue ds * 90 + 90\<rparr>
               else None))"

definition spec_parse :: "jsstring \<Rightarrow> LectureSlot list" where
  "spec_parse s = List.map_filter spec_slot (spec_tokens (trim s))"

text \<open>The decimal digits of a natural number, as \<open>String(n)\<close> writes them.\<close>

fun digitsOf :: "nat \<Rightarrow> jsstring" where
  "digitsOf n =
     (if n < 10 then [of_nat (48 + n)]
      else digitsOf (n div 10) @ [of_nat (48 + n mod 10)])"

section \<open>The slot consolidator (\<open>components/TimetableView.tsx\<close>)\<close>

subsection \<open>The objects of the view\<close>

text \<open>
  The objects of \<open>components/TimetableView.tsx\<close>. Four of them carry a time range in
  fields named \<open>start\<close> and \<open>end\<close>, and three of these a \<open>day\<close>; the records share those
  fields by extension, so that each keeps the field names of the source:
  \<^item> \<open>Group\<close> is \<open>{start, end, slots}\<close>, the local type of \<open>mergeOverlappingSlots\<close>;
  \<^item> \<open>SlotInput\<close> is \<open>{entry, day, start, end}\<close>;
  \<^item> \<open>DisplayBlock\<close> is \<open>{day, start, end, entries, isConflict}\<close>, an element of the result
    of \<open>mergeOverlappingSlots\<close>;
  \<^item> \<open>PositionedBlock\<close> is a display block spread into an object with \<open>topPercent\<close> and
    \<open>heightPercent\<close>;
  \<^item> \<open>PeriodLabel\<close> is \<open>{period, start, end}\<close>, an element of the result of
    \<open>getPeriodsInRange\<close>.
  The field \<open>day\<close> of a \<open>LectureSlot\<close> is written \<open>LectureSlot.day\<close> from here on, and a
  parameter that the source names as a field is renamed.
\<close>

record Span =
  start :: int
  "end" :: int

record DaySpan = Span +
  day :: DayIndex

record SlotInput = DaySpan +
  entry :: TimetableEntry

record Group = Span +
  slots :: "SlotInput list"

record DisplayBlock = DaySpan +
  entries :: "TimetableEntry list"
  isConflict :: bool

record PositionedBlock = DisplayBlock +
  topPercent :: real
  heightPercent :: real

record PeriodLabel = Span +
  period :: int

subsection \<open>Containers of the language\<close>

text \<open>
  A \<open>Map\<close> whose values are arrays, as an association list in insertion order, which is
  the order a \<open>Map\<close> iterates in. \<open>mapPush m k v\<close> is
  \<open>if (!m.has(k)) m.set(k, []); m.get(k).push(v)\<close>.
\<close>

fun mapPush :: "('k \<times> 'v list) list \<Rightarrow> 'k \<Rightarrow> 'v \<Rightarrow> ('k \<times> 'v list) list" where
  "mapPush [] k v = [(k, [v])]"
| "mapPush ((k', vs) # m) k v =
     (if k' = k then (k', vs @ [v]) # m else (k', vs) # mapPush m k v)"

text \<open>
  A \<open>Set\<close> as the list of its elements in insertion order; \<open>setAdd\<close> is \<open>Set.prototype.add\<close>.
\<close>

definition setAdd :: "'a list \<Rightarrow> 'a \<Rightarrow> 'a list" where
  "setAdd xs x = (if x \<in> set xs then xs else xs @ [x])"

text \<open>
  \<open>xs.sort((a, b) => a.start - b.start)\<close> is \<open>sort_key start xs\<close>: \<open>Array.prototype.sort\<close>
  is stable, and so is the insertion sort \<open>sort_key\<close>. The difference of two Numbers has
  the sign of the difference of the integers that model them; the difference of two
  infinities is NaN, which the sort takes for 0, as the model takes two equal integers.
\<close>

subsection \<open>Stage A: \<open>mergeConsecutiveSlots\<close>\<close>

text \<open>
  The closure \<open>key\<close>: course code, section code and the decimal digits of the day, joined
  by hyphens (U+002D).
\<close>

definition key :: "SlotInput \<Rightarrow> jsstring" where
  "key s =
     hakjeongbeonho (entry s) @ [0x2D] @ bunban (entry s) @ [0x2D] @ digitsOf (day s)"

definition byEntryDay :: "SlotInput list \<Rightarrow> (jsstring \<times> SlotInput list) list" where
  "byEntryDay ss = foldl (\<lambda>m s. mapPush m (key s) s) [] ss"

text \<open>
  The scan of one sorted group from its second element on, with the running interval
  \<open>[runStart, runEnd)\<close>; the result is what the scan and the final \<open>push\<close> add to \<open>merged\<close>.
\<close>

fun runs :: "TimetableEntry \<Rightarrow> DayIndex \<Rightarrow> int \<Rightarrow> int \<Rightarrow> SlotInput list \<Rightarrow> SlotInput list" where
  "runs e d runStart runEnd [] = [\<lparr>start = runStart, end = runEnd, day = d, entry = e\<rparr>]"
| "runs e d runStart runEnd (g # gs) =
     (if start g = runEnd then runs e d runStart (end g) gs
      else \<lparr>start = runStart, end = runEnd, day = d, entry = e\<rparr> # runs e d (start g) (end g) gs)"

text \<open>
  One round of the loop over the groups. The source reads \<open>group[0]\<close> unguarded; a group of
  the map is never empty (lemma \<open>byEntryDay_nonempty\<close>), so the first case is not reached.
\<close>

definition mergeGroup :: "SlotInput list \<Rightarrow> SlotInput list" where
  "mergeGroup group0 =
     (case sort_key start group0 of
        [] \<Rightarrow> []
      | g # gs \<Rightarrow> runs (entry g) (day g) (start g) (end g) gs)"

definition mergeConsecutiveSlots :: "SlotInput list \<Rightarrow> SlotInput list" where
  "mergeConsecutiveSlots ss = concat (map (\<lambda>(k, group0). mergeGroup group0) (byEntryDay ss))"

subsection \<open>Stage B: \<open>mergeOverlappingSlots\<close>\<close>

definition overlaps :: "int \<Rightarrow> int \<Rightarrow> int \<Rightarrow> int \<Rightarrow> bool" where
  "overlaps aStart aEnd bStart bEnd \<longleftrightarrow> aStart < bEnd \<and> bStart < aEnd"

definition byDay :: "SlotInput list \<Rightarrow> (DayIndex \<times> SlotInput list) list" where
  "byDay ss = foldl (\<lambda>m s. mapPush m (day s) s) [] ss"

text \<open>
  The source mutates the first overlapping group in place, where it stands in \<open>groups\<close>,
  and splices every other overlapping group out. \<open>absorb\<close> is one round of the inner loop
  on the first group \<open>first0\<close>; \<open>replaceFirst P new\<close> puts \<open>new\<close> where the first group satisfying
  \<open>P\<close> stands and removes the later groups satisfying \<open>P\<close>. The groups of \<open>overlapping\<close> are
  those that satisfied the test before any mutation.
\<close>

definition absorb :: "Group \<Rightarrow> Group \<Rightarrow> Group" where
  "absorb first0 g =
     first0\<lparr>slots := slots first0 @ slots g,
            start := min (start first0) (start g),
            end := max (end first0) (end g)\<rparr>"

fun replaceFirst :: "(Group \<Rightarrow> bool) \<Rightarrow> Group \<Rightarrow> Group list \<Rightarrow> Group list" where
  "replaceFirst P new [] = []"
| "replaceFirst P new (g # gs) =
     (if P g then new # filter (\<lambda>h. \<not> P h) gs else g # replaceFirst P new gs)"

text \<open>One round of the loop over the slots of a day.\<close>

definition addSlot :: "Group list \<Rightarrow> SlotInput \<Rightarrow> Group list" where
  "addSlot groups s =
     (let overlapping = filter (\<lambda>g. overlaps (start s) (end s) (start g) (end g)) groups
      in case overlapping of
           [] \<Rightarrow> groups @ [\<lparr>start = start s, end = end s, slots = [s]\<rparr>]
         | first0 # others \<Rightarrow>
             (let first1 = first0\<lparr>slots := slots first0 @ [s],
                                  start := min (start first0) (start s),
                                  end := max (end first0) (end s)\<rparr>;
                  first2 = foldl absorb first1 others
              in replaceFirst (\<lambda>g. overlaps (start s) (end s) (start g) (end g)) first2 groups))"

definition dayGroups :: "SlotInput list \<Rightarrow> Group list" where
  "dayGroups daySlots = foldl addSlot [] (sort_key start daySlots)"

text \<open>The identifier of an entry in the deduplication: course code, hyphen, section code.\<close>

definition entryId :: "TimetableEntry \<Rightarrow> jsstring" where
  "entryId e = hakjeongbeonho e @ [0x2D] @ bunban e"

text \<open>The loop over \<open>group.slots\<close>, with the set \<open>seen\<close> and the array \<open>entries\<close>.\<close>

fun dedupEntries :: "jsstring set \<Rightarrow> TimetableEntry list \<Rightarrow> SlotInput list \<Rightarrow> TimetableEntry list" where
  "dedupEntries seen es [] = es"
| "dedupEntries seen es (s # ss) =
     (if entryId (entry s) \<in> seen then dedupEntries seen es ss
      else dedupEntries (insert (entryId (entry s)) seen) (es @ [entry s]) ss)"

definition blockOf :: "DayIndex \<Rightarrow> Group \<Rightarrow> DisplayBlock" where
  "blockOf d group0 =
     (let es = dedupEntries {} [] (slots group0)
      in \<lparr>start = start group0, end = end group0, day = d,
          entries = es, isConflict = (length es > 1)\<rparr>)"

definition mergeOverlappingSlots :: "SlotInput list \<Rightarrow> DisplayBlock list" where
  "mergeOverlappingSlots ss =
     concat (map (\<lambda>(d, daySlots). map (blockOf d) (dayGroups daySlots)) (byDay ss))"

section \<open>The grid layout (\<open>TimetableView\<close>)\<close>

definition DEFAULT_START_MINUTES :: int where
  "DEFAULT_START_MINUTES = 9 * 60"

definition DEFAULT_END_MINUTES :: int where
  "DEFAULT_END_MINUTES = 18 * 60"

definition DEFAULT_DAYS :: "DayIndex list" where
  "DEFAULT_DAYS = [0, 1, 2, 3, 4]"

text \<open>
  \<open>PERIOD_START_MINUTES\<close> and \<open>PERIOD_DURATION\<close> of the view; the first shares its name with
  the constant of the parser and is suffixed here.
\<close>

definition PERIOD_START_MINUTES_view :: int where
  "PERIOD_START_MINUTES_view = 9 * 60"

definition PERIOD_DURATION :: int where
  "PERIOD_DURATION = 90"

definition getPeriodsInRange :: "int \<Rightarrow> int \<Rightarrow> PeriodLabel list" where
  "getPeriodsInRange startMin endMin =
     concat (map (\<lambda>p.
       (let start = PERIOD_START_MINUTES_view + (p - 1) * PERIOD_DURATION;
            end = start + PERIOD_DURATION
        in if end > startMin \<and> start < endMin
           then [\<lparr>start = max start startMin, end = min end endMin, period = p\<rparr>]
           else [])) [1..6])"

text \<open>
  The first \<open>useMemo\<close>. Its loops over the entries and their slots fill \<open>allSlots\<close>, \<open>minStart\<close>,
  \<open>maxEnd\<close> and \<open>daysSet\<close>; \<open>Collected\<close> holds the four.
\<close>

record Collected =
  allSlots :: "SlotInput list"
  minStart :: int
  maxEnd :: int
  daysSet :: "DayIndex list"

definition collectSlot :: "TimetableEntry \<Rightarrow> Collected \<Rightarrow> LectureSlot \<Rightarrow> Collected" where
  "collectSlot e c slot =
     \<lparr>allSlots = allSlots c @
        [\<lparr>start = startMinutes slot, end = endMinutes slot, day = LectureSlot.day slot, entry = e\<rparr>],
      minStart = min (minStart c) (startMinutes slot),
      maxEnd = max (maxEnd c) (endMinutes slot),
      daysSet = setAdd (daysSet c) (LectureSlot.day slot)\<rparr>"

definition collectEntry :: "Collected \<Rightarrow> TimetableEntry \<Rightarrow> Collected" where
  "collectEntry c e = foldl (collectSlot e) c (parseLectureTime (ganguisigan e))"

definition collect :: "TimetableEntry list \<Rightarrow> Collected" where
  "collect es =
     foldl collectEntry
       \<lparr>allSlots = [], minStart = DEFAULT_START_MINUTES, maxEnd = DEFAULT_END_MINUTES,
        daysSet = DEFAULT_DAYS\<rparr> es"

text \<open>
  The view state. \<open>userStart\<close> and \<open>userEnd\<close> are the Numbers that \<open>timeToMinutes\<close> makes of
  the clock strings \<open>customStart\<close> and \<open>customEnd\<close>, \<open>None\<close> where the string is \<open>null\<close>; the
  conversion of the string is not part of this development. \<open>includedDays\<close> is the \<open>Set\<close> of
  the included days in insertion order, or \<open>None\<close> for \<open>null\<close>.
\<close>

definition gridStartOf :: "int option \<Rightarrow> Collected \<Rightarrow> int" where
  "gridStartOf userStart c =
     (case userStart of
        Some u \<Rightarrow> u
      | None \<Rightarrow> if allSlots c \<noteq> [] then minStart c else DEFAULT_START_MINUTES)"

definition gridEndOf :: "int option \<Rightarrow> Collected \<Rightarrow> int" where
  "gridEndOf userEnd c =
     (case userEnd of
        Some u \<Rightarrow> u
      | None \<Rightarrow> if allSlots c \<noteq> [] then maxEnd c else DEFAULT_END_MINUTES)"

definition daysOf :: "DayIndex list option \<Rightarrow> Collected \<Rightarrow> DayIndex list" where
  "daysOf includedDays c =
     (case includedDays of Some ds \<Rightarrow> sort ds | None \<Rightarrow> sort (daysSet c))"

definition totalMinutesOf :: "int \<Rightarrow> int \<Rightarrow> int" where
  "totalMinutesOf gridStart gridEnd = max 1 (gridEnd - gridStart)"

text \<open>The function mapped over the display blocks: the block with its two percentages.\<close>

definition position :: "int \<Rightarrow> int \<Rightarrow> DisplayBlock \<Rightarrow> PositionedBlock" where
  "position gridStart gridEnd s =
     (let totalMinutes = totalMinutesOf gridStart gridEnd;
          topPercent = min 100 (max 0
            (real_of_int (max (start s) gridStart - gridStart) / real_of_int totalMinutes * 100));
          endPercent = min 100 (max 0
            (real_of_int (min (end s) gridEnd - gridStart) / real_of_int totalMinutes * 100));
          heightPercent = max 0 (endPercent - topPercent)
      in \<lparr>start = start s, end = end s, day = day s, entries = entries s,
          isConflict = isConflict s, topPercent = topPercent, heightPercent = heightPercent\<rparr>)"

definition positionedBlocks :: "int \<Rightarrow> int \<Rightarrow> DayIndex list \<Rightarrow> DisplayBlock list \<Rightarrow> PositionedBlock list" where
  "positionedBlocks gridStart gridEnd days displaySlots =
     filter (\<lambda>b. heightPercent b > 0)
       (map (position gridStart gridEnd) (filter (\<lambda>s. day s \<in> set days) displaySlots))"

text \<open>
  The second \<open>useMemo\<close>: a label every 30 minutes, and \<open>gridEnd\<close> when the last falls short.
  The array is as long as the window requires; the limit that an engine puts on the length
  of an array, beyond which \<open>push\<close> throws a \<open>RangeError\<close>, is not modelled.
\<close>

function labelsFrom :: "int \<Rightarrow> int \<Rightarrow> int list" where
  "labelsFrom m gridEnd = (if m \<le> gridEnd then m # labelsFrom (m + 30) gridEnd else [])"
  by pat_completeness auto
termination
  by (relation "measure (\<lambda>(m, gridEnd). nat (gridEnd - m + 1))") auto

definition timeLabelsOf :: "int \<Rightarrow> int \<Rightarrow> int list" where
  "timeLabelsOf gridStart gridEnd =
     (let labels = labelsFrom gridStart gridEnd
      in if labels \<noteq> [] \<and> last labels < gridEnd then labels @ [gridEnd] else labels)"

record View =
  gridStart :: int
  gridEnd :: int
  days :: "DayIndex list"
  blocks :: "PositionedBlock list"
  timeLabels :: "int list"
  periodLabels :: "PeriodLabel list"

definition TimetableView :: "TimetableEntry list \<Rightarrow> int option \<Rightarrow> int option \<Rightarrow> DayIndex list option \<Rightarrow> View" where
  "TimetableView es userStart userEnd includedDays =
     (let c = collect es;
          gs = gridStartOf userStart c;
          ge = gridEndOf userEnd c;
          ds = daysOf includedDays c;
          mergedSlots = mergeConsecutiveSlots (allSlots c);
          displaySlots = mergeOverlappingSlots mergedSlots
      in \<lparr>gridStart = gs, gridEnd = ge, days = ds,
          blocks = positionedBlocks gs ge ds displaySlots,
          timeLabels = timeLabelsOf gs ge,
          periodLabels = getPeriodsInRange gs ge\<rparr>)"

section \<open>Notions of the specification and concrete inputs\<close>


text \<open>
  All parsed slots: the slots of the schedule strings of the entries, in the order of the
  entries.
\<close>

definition parsedSlots :: "TimetableEntry list \<Rightarrow> LectureSlot list" where
  "parsedSlots es = concat (map (\<lambda>e. parseLectureTime (ganguisigan e)) es)"






text \<open>
  The entry and day of a slot, as the specification groups the slots: course code, section
  code and day.
\<close>

definition entryDay :: "SlotInput \<Rightarrow> jsstring \<times> jsstring \<times> DayIndex" where
  "entryDay s = (hakjeongbeonho (entry s), bunban (entry s), day s)"

text \<open>
  The identifiers of a list of entries are unambiguous: two entries whose course code and
  section code join, with the hyphen between them, to the same string have the same course
  code and the same section code. It holds of every list of entries whose section codes
  contain no hyphen (lemma \<open>unambiguous_sections\<close>).
\<close>

definition unambiguous :: "TimetableEntry list \<Rightarrow> bool" where
  "unambiguous es =
     list_all (\<lambda>e. list_all (\<lambda>f.
        (hakjeongbeonho e @ [0x2D] @ bunban e = hakjeongbeonho f @ [0x2D] @ bunban f) =
        (hakjeongbeonho e = hakjeongbeonho f \<and> bunban e = bunban f)) es) es"

text \<open>
  The maximal runs of neighbours of a list of slots in which each slot ends where the next
  starts, and the interval that Stage A makes of such a run in a group whose first slot is
  \<open>g0\<close>: it runs from the start of the first slot of the run to the end of its last.
\<close>

fun adjacentRuns :: "SlotInput list \<Rightarrow> SlotInput list list" where
  "adjacentRuns [] = []"
| "adjacentRuns [x] = [[x]]"
| "adjacentRuns (x # y # ys) =
     (if end x = start y
      then (case adjacentRuns (y # ys) of [] \<Rightarrow> [[x]] | r # rs \<Rightarrow> (x # r) # rs)
      else [x] # adjacentRuns (y # ys))"

definition runInterval :: "SlotInput \<Rightarrow> SlotInput list \<Rightarrow> SlotInput" where
  "runInterval g0 r = \<lparr>start = start (hd r), end = end (last r), day = day g0, entry = entry g0\<rparr>"

text \<open>
  An entry with the given course code, section code and schedule string, every other field
  empty, a slot input of an entry, and a display block without entries; they build the
  concrete inputs of the examples.
\<close>

definition mkEntry :: "jsstring \<Rightarrow> jsstring \<Rightarrow> jsstring \<Rightarrow> TimetableEntry" where
  "mkEntry code sect sched =
     \<lparr>gubun = [], hakjeongbeonho = code, gwamokmyeong = [], bunban = sect, isu = [],
      hakjeom = [], sisu = [], damdanggyosu = [], ganguisigan = sched, ganguiyuhyeong = []\<rparr>"

definition mkSlot :: "TimetableEntry \<Rightarrow> DayIndex \<Rightarrow> int \<Rightarrow> int \<Rightarrow> SlotInput" where
  "mkSlot e d a b = \<lparr>start = a, end = b, day = d, entry = e\<rparr>"

definition mkBlock :: "DayIndex \<Rightarrow> int \<Rightarrow> int \<Rightarrow> DisplayBlock" where
  "mkBlock d a b = \<lparr>start = a, end = b, day = d, entries = [], isConflict = False\<rparr>"

text \<open>
  Course A, section 1, with the schedule strings \<open>Mon4\<close>, \<open>Tue2 Tue3\<close> and \<open>Tue2 Tue2\<close> (the
  day labels are the Korean ones), and course B, section 1, with \<open>Tue3 Sat1\<close>.
\<close>

definition entryMon4 :: TimetableEntry where
  "entryMon4 = mkEntry [0x41] [0x31] [0xC6D4, 0x34]"

definition entryA :: TimetableEntry where
  "entryA = mkEntry [0x41] [0x31] [0xD654, 0x32, 0x20, 0xD654, 0x33]"


definition entryB :: TimetableEntry where
  "entryB = mkEntry [0x42] [0x31] [0xD654, 0x33, 0x20, 0xD1A0, 0x31]"

text \<open>
  Two entries that differ in course code and in section code and have the same joined
  identifier: course \<open>A\<close> section \<open>B-1\<close>, and course \<open>A-B\<close> section \<open>1\<close>.
\<close>

definition entryX :: "jsstring \<Rightarrow> TimetableEntry" where
  "entryX sched = mkEntry [0x41] [0x42, 0x2D, 0x31] sched"

definition entryY :: "jsstring \<Rightarrow> TimetableEntry" where
  "entryY sched = mkEntry [0x41, 0x2D, 0x42] [0x31] sched"

section \<open>Properties of the parser\<close>

declare spec_tokens.simps [simp del] digitsOf.simps [simp del]

lemma isDigit_not_ws: "isDigit c \<Longrightarrow> \<not> isWhiteSpace c"
  unfolding isDigit_def isWhiteSpace_def by (auto simp: word_le_nat_alt)

lemma isDayLabel_not_ws: "isDayLabel c \<Longrightarrow> \<not> isWhiteSpace c"
  unfolding isDayLabel_def isWhiteSpace_def by (auto simp: word_le_nat_alt)

lemma isDigit_not_sign: "isDigit c \<Longrightarrow> c \<noteq> 0x2B \<and> c \<noteq> 0x2D"
  unfolding isDigit_def by (auto simp: word_le_nat_alt)

lemma digitValue_nonneg: "isDigit c \<Longrightarrow> 0 \<le> digitValue c"
  unfolding isDigit_def digitValue_def by (auto simp: word_le_def)

lemma DAY_MAP_spec_day: "DAY_MAP [c] = spec_day c"
  by (simp add: DAY_MAP_def spec_day_def)

lemma spec_day_Some_iff: "(\<exists>d. spec_day c = Some d) \<longleftrightarrow> isDayLabel c"
  by (auto simp: spec_day_def isDayLabel_def)

lemma spec_day_le: "spec_day c = Some d \<Longrightarrow> d \<le> 6"
  by (auto simp: spec_day_def split: if_splits)

lemma decimalValue_snoc: "decimalValue (ds @ [d]) = decimalValue ds * 10 + digitValue d"
  by (simp add: decimalValue_def)

lemma decimalValue_nonneg_aux:
  "list_all isDigit ds \<Longrightarrow> 0 \<le> a \<Longrightarrow> 0 \<le> foldl (\<lambda>a d. a * 10 + digitValue d) a ds"
  by (induction ds arbitrary: a) (auto simp: digitValue_nonneg)

lemma decimalValue_nonneg: "list_all isDigit ds \<Longrightarrow> 0 \<le> decimalValue ds"
  unfolding decimalValue_def by (rule decimalValue_nonneg_aux) simp_all

subsection \<open>Rounding\<close>

lemma bitLength_le: "n < 2 ^ k \<Longrightarrow> bitLength n \<le> k"
proof (induction k arbitrary: n)
  case 0
  then show ?case by (simp add: bitLength.simps [of n])
next
  case (Suc k)
  show ?case
  proof (cases "n \<le> 0")
    case True
    then show ?thesis by (simp add: bitLength.simps [of n])
  next
    case False
    have "n div 2 < 2 ^ k" using Suc.prems by simp
    then have "bitLength (n div 2) \<le> k" by (rule Suc.IH)
    then show ?thesis using False by (simp add: bitLength.simps [of n])
  qed
qed

lemma bitLength_gt: "2 ^ k \<le> n \<Longrightarrow> k < bitLength n"
proof (induction k arbitrary: n)
  case 0
  then show ?case by (simp add: bitLength.simps [of n])
next
  case (Suc k)
  have p: "0 < n" using Suc.prems by (smt (verit) zero_less_power)
  have "2 ^ k \<le> n div 2" using Suc.prems by simp
  then have "k < bitLength (n div 2)" by (rule Suc.IH)
  then show ?case using p by (simp add: bitLength.simps [of n])
qed

lemma bitLength_lower: "0 < n \<Longrightarrow> 2 ^ (bitLength n - 1) \<le> n"
proof (induction n rule: bitLength.induct)
  case (1 n)
  show ?case
  proof (cases "n div 2 \<le> 0")
    case True
    then have "bitLength (n div 2) = 0" by (simp add: bitLength.simps [of "n div 2"])
    then show ?thesis using 1(2) by (simp add: bitLength.simps [of n])
  next
    case False
    then have ih: "2 ^ (bitLength (n div 2) - 1) \<le> n div 2" using 1 by simp
    have b: "0 < bitLength (n div 2)"
      using False by (simp add: bitLength.simps [of "n div 2"])
    have "(2::int) ^ bitLength (n div 2) = 2 * 2 ^ (bitLength (n div 2) - 1)"
      using b by (metis power_eq_if not_gr_zero)
    also have "\<dots> \<le> 2 * (n div 2)" using ih by simp
    also have "\<dots> \<le> n" by presburger
    finally show ?thesis using 1(2) by (simp add: bitLength.simps [of n])
  qed
qed

lemma roundNat_small: "n < 2 ^ 53 \<Longrightarrow> roundNat n = n"
  by (simp add: roundNat_def)

lemma roundNat_multiple:
  assumes "2 ^ 53 \<le> n" "n mod 2 ^ (bitLength n - 53) = 0"
  shows "roundNat n = n"
proof -
  have "(0::int) < 2 ^ (bitLength n - 53 - 1)" by simp
  then have "n div 2 ^ (bitLength n - 53) * 2 ^ (bitLength n - 53) = n"
    using assms(2) by (simp add: mod_0_imp_dvd)
  then show ?thesis
    using assms by (simp add: roundNat_def Let_def)
qed

lemma roundNat_even:
  assumes "0 \<le> n" "n \<le> 2 ^ 54" "even n"
  shows "roundNat n = n"
proof -
  consider "n < 2 ^ 53" | "2 ^ 53 \<le> n" "n < 2 ^ 54" | "n = 2 ^ 54"
    using assms(2) by linarith
  then show ?thesis
  proof cases
    case 1
    then show ?thesis by (rule roundNat_small)
  next
    case 2
    have "bitLength n = 54"
      using bitLength_le [OF 2(2)] bitLength_gt [OF 2(1)] by simp
    then have "n mod 2 ^ (bitLength n - 53) = 0"
      using assms(3) by simp
    then show ?thesis using 2(1) by (intro roundNat_multiple)
  next
    case 3
    have "n < 2 ^ 55" "2 ^ 54 \<le> n" using 3 by simp_all
    then have "bitLength n = 55"
      using bitLength_le [of n 55] bitLength_gt [of 54 n] by simp
    then have "n mod 2 ^ (bitLength n - 53) = 0"
      using 3 by simp
    then show ?thesis using 3 by (intro roundNat_multiple) simp_all
  qed
qed

lemma roundNat_large:
  assumes "2 ^ 53 \<le> n"
  shows "2 ^ 53 \<le> roundNat n"
proof -
  define e where "e = bitLength n - 53"
  define q where "q = n div 2 ^ e"
  have b: "53 < bitLength n" using assms by (rule bitLength_gt)
  then have e: "0 < e" "bitLength n - 1 = e + 52" by (simp_all add: e_def)
  have "0 < n" using assms by (smt (verit) zero_less_power)
  then have "2 ^ (e + 52) \<le> n" using bitLength_lower [of n] e(2) by simp
  then have "(2 ^ (e + 52)) div 2 ^ e \<le> n div 2 ^ e"
    by (intro zdiv_mono1) simp_all
  moreover have "((2::int) ^ (e + 52)) div 2 ^ e = 2 ^ 52"
    by (simp add: power_add)
  ultimately have q: "2 ^ 52 \<le> q" by (simp add: q_def)
  have "(2::int) ^ 1 \<le> 2 ^ e" using e(1) by (intro power_increasing) simp_all
  then have "(2::int) \<le> 2 ^ e" by simp
  then have "2 ^ 52 * 2 \<le> q * 2 ^ e"
    using q by (intro mult_mono) simp_all
  then have l: "2 ^ 53 \<le> q * 2 ^ e" by simp
  have "q * 2 ^ e \<le> (q + 1) * 2 ^ e" by (simp add: distrib_right)
  then have u: "2 ^ 53 \<le> (q + 1) * 2 ^ e" using l by linarith
  show ?thesis
    using assms l u by (simp add: roundNat_def Let_def e_def [symmetric] q_def [symmetric])
qed

lemma toDouble_exact: "0 \<le> x \<Longrightarrow> x \<le> 2 ^ 54 \<Longrightarrow> even x \<Longrightarrow> toDouble x = x"
  by (simp add: toDouble_def Let_def roundNat_even Infinity_def)

lemma toDouble_small: "0 \<le> x \<Longrightarrow> x < 2 ^ 53 \<Longrightarrow> toDouble x = x"
  by (simp add: toDouble_def Let_def roundNat_small Infinity_def)

lemma toDouble_lower:
  assumes "0 \<le> x"
  shows "min x (2 ^ 53) \<le> toDouble x"
proof (cases "x < 2 ^ 53")
  case True
  then show ?thesis using assms by (simp add: toDouble_small)
next
  case False
  then have "2 ^ 53 \<le> roundNat \<bar>x\<bar>" using assms by (intro roundNat_large) simp
  then show ?thesis
    using assms by (auto simp: toDouble_def Let_def Infinity_def intro: min.coboundedI2)
qed

lemma toDouble_nonneg: "0 \<le> x \<Longrightarrow> 0 \<le> toDouble x"
  using toDouble_lower [of x] by (simp add: min_def split: if_splits)

subsection \<open>One token\<close>

lemma parseInt_digits:
  assumes "ds \<noteq> []" "list_all isDigit ds"
  shows "parseInt ds = Some (toDouble (decimalValue ds))"
proof -
  obtain c cs where ds: "ds = c # cs" using assms(1) by (cases ds) auto
  have c: "isDigit c" using assms(2) ds by simp
  have t: "dropWhile isWhiteSpace ds = ds"
    using ds isDigit_not_ws [OF c] by simp
  have h: "hd ds \<noteq> 0x2B" "hd ds \<noteq> 0x2D"
    using isDigit_not_sign [OF c] ds by simp_all
  have tw: "takeWhile isDigit ds = ds"
    using assms(2) by (simp add: list_all_iff)
  show ?thesis
    unfolding parseInt_def t Let_def using h assms(1) by (simp add: tw)
qed

lemma periodToMinutes_exact:
  assumes "0 \<le> v" "540 + 90 * v \<le> 2 ^ 54"
  shows "periodToMinutes (toDouble v) = (450 + v * 90, 450 + v * 90 + 90)"
proof -
  have v: "toDouble v = v" using assms by (intro toDouble_small) simp_all
  have 1: "toDouble (v * 90) = v * 90" using assms by (intro toDouble_exact) simp_all
  have 2: "toDouble (450 + v * 90) = 450 + v * 90" using assms by (intro toDouble_exact) simp_all
  have 3: "toDouble (540 + v * 90) = 540 + v * 90"
    using assms by (intro toDouble_exact) simp_all
  show ?thesis
    by (simp add: periodToMinutes_def PERIOD_START_MINUTES_def PERIOD_DURATION_MINUTES_def
        Let_def v 1 2 3)
qed

lemma periodToMinutes_late:
  assumes "11 \<le> v"
  shows "1440 < snd (periodToMinutes (toDouble v))"
proof -
  define p where "p = toDouble v"
  define a where "a = toDouble (p * 90)"
  define st where "st = toDouble (450 + a)"
  have "min v (2 ^ 53) \<le> p" unfolding p_def using assms by (intro toDouble_lower) simp
  then have p: "11 \<le> p" using assms by (simp add: min_def split: if_splits)
  have "min (p * 90) (2 ^ 53) \<le> a" unfolding a_def using p by (intro toDouble_lower) simp
  then have a: "990 \<le> a" using p by (simp add: min_def split: if_splits)
  have "min (450 + a) (2 ^ 53) \<le> st" unfolding st_def using a by (intro toDouble_lower) simp
  then have st: "1440 \<le> st" using a by (simp add: min_def split: if_splits)
  have "min (st + 90) (2 ^ 53) \<le> toDouble (st + 90)" using st by (intro toDouble_lower) simp
  then have "1440 < toDouble (st + 90)" using st by (simp add: min_def split: if_splits)
  then show ?thesis
    by (simp add: periodToMinutes_def PERIOD_START_MINUTES_def PERIOD_DURATION_MINUTES_def
        Let_def p_def a_def st_def)
qed

lemma parseStep_match:
  assumes "spec_day c = Some d" "ds \<noteq> []" "list_all isDigit ds"
  shows "parseStep acc (c # ds) =
     acc @ [\<lparr>LectureSlot.day = d,
             startMinutes = fst (periodToMinutes (toDouble (decimalValue ds))),
             endMinutes = snd (periodToMinutes (toDouble (decimalValue ds)))\<rparr>]"
proof -
  have l: "isDayLabel c" using assms(1) spec_day_Some_iff [of c] by blast
  have p: "parseInt ds = Some (toDouble (decimalValue ds))"
    using assms(2,3) by (rule parseInt_digits)
  have n: "\<not> toDouble (decimalValue ds) < 0"
    using toDouble_nonneg [OF decimalValue_nonneg [OF assms(3)]] by simp
  show ?thesis
    using l assms p n
    by (simp add: parseStep_def matchPair_def DAY_MAP_spec_day split_beta)
qed

lemma parseStep_skip:
  assumes "spec_slot tok = None"
  shows "parseStep acc tok = acc"
proof (cases tok)
  case Nil
  then show ?thesis by (simp add: parseStep_def matchPair_def)
next
  case (Cons c ds)
  have "\<not> (isDayLabel c \<and> ds \<noteq> [] \<and> list_all isDigit ds)"
    using assms Cons spec_day_Some_iff [of c]
    by (cases "spec_day c") (auto simp: spec_slot_def)
  then show ?thesis using Cons by (auto simp add: parseStep_def matchPair_def)
qed

lemma spec_slot_Some:
  assumes "spec_slot tok = Some x"
  obtains c ds d where "tok = c # ds" "spec_day c = Some d" "ds \<noteq> []" "list_all isDigit ds"
    "x = \<lparr>LectureSlot.day = d, startMinutes = 450 + decimalValue ds * 90,
          endMinutes = 450 + decimalValue ds * 90 + 90\<rparr>"
  using assms by (auto simp: spec_slot_def split: list.splits option.splits if_splits)


lemma token_exact:
  assumes "\<And>x. spec_slot tok = Some x \<Longrightarrow> endMinutes x \<le> 2 ^ 54"
  shows "parseStep [] tok = (case spec_slot tok of None \<Rightarrow> [] | Some x \<Rightarrow> [x])"
proof (cases "spec_slot tok")
  case None
  then show ?thesis by (simp add: parseStep_skip)
next
  case (Some x)
  from Some obtain c ds d where t: "tok = c # ds" "spec_day c = Some d" "ds \<noteq> []"
    "list_all isDigit ds"
    "x = \<lparr>LectureSlot.day = d, startMinutes = 450 + decimalValue ds * 90,
          endMinutes = 450 + decimalValue ds * 90 + 90\<rparr>"
    by (rule spec_slot_Some)
  have "endMinutes x \<le> 2 ^ 54" using assms Some by simp
  then have b: "540 + 90 * decimalValue ds \<le> 2 ^ 54" using t(5) by simp
  have "periodToMinutes (toDouble (decimalValue ds)) =
     (450 + decimalValue ds * 90, 450 + decimalValue ds * 90 + 90)"
    using decimalValue_nonneg [OF t(4)] b by (rule periodToMinutes_exact)
  then show ?thesis
    using t Some by (simp add: parseStep_match)
qed

lemma parseStep_append: "parseStep acc tok = acc @ parseStep [] tok"
proof (cases "spec_slot tok")
  case None
  then show ?thesis by (simp add: parseStep_skip)
next
  case (Some x)
  from Some obtain c ds d where t: "tok = c # ds" "spec_day c = Some d" "ds \<noteq> []"
    "list_all isDigit ds"
    by (rule spec_slot_Some)
  show ?thesis
    using t by (simp add: parseStep_match)
qed

lemma foldl_parseStep: "foldl parseStep acc toks = acc @ concat (map (parseStep []) toks)"
proof (induction toks arbitrary: acc)
  case Nil
  show ?case by simp
next
  case (Cons t ts)
  show ?case
    using Cons [of "parseStep acc t"] parseStep_append [of acc t] by simp
qed

lemma map_filter_concat:
  "List.map_filter f xs = concat (map (\<lambda>t. case f t of None \<Rightarrow> [] | Some x \<Rightarrow> [x]) xs)"
  by (induction xs) (simp_all add: List.map_filter_simps split: option.split)

lemma digit_char: "d < 10 \<Longrightarrow> isDigit (of_nat (48 + d)) \<and> digitValue (of_nat (48 + d)) = int d"
proof -
  assume "d < 10"
  then have "d \<in> {0,1,2,3,4,5,6,7,8,9}" by auto
  then show ?thesis
    by (auto simp: isDigit_def digitValue_def)
qed

lemma digitsOf_digits: "list_all isDigit (digitsOf n) \<and> digitsOf n \<noteq> [] \<and> decimalValue (digitsOf n) = int n"
proof (induction n rule: digitsOf.induct)
  case (1 n)
  show ?case
  proof (cases "n < 10")
    case True
    then show ?thesis
      using digit_char [of n] by (simp add: digitsOf.simps [of n] decimalValue_def)
  next
    case False
    have m: "n mod 10 < 10" by simp
    have a: "int (n div 10) * 10 + int (n mod 10) = int n" by presburger
    show ?thesis
      using False 1 digit_char [OF m] a
      by (simp add: digitsOf.simps [of n] decimalValue_snoc)
  qed
qed

lemma splitWs_no_ws: "\<forall>c\<in>set s. \<not> isWhiteSpace c \<Longrightarrow> splitWs cur s = [cur @ s]"
  by (induction s arbitrary: cur) auto

lemma splitWs_run:
  "splitWs cur s =
     (let w = takeWhile (\<lambda>c. \<not> isWhiteSpace c) s; r = dropWhile (\<lambda>c. \<not> isWhiteSpace c) s
      in if r = [] then [cur @ w] else (cur @ w) # splitWs [] (dropWhile isWhiteSpace r))"
proof (induction s arbitrary: cur)
  case Nil
  show ?case by simp
next
  case (Cons c cs)
  show ?case
  proof (cases "isWhiteSpace c")
    case True
    then show ?thesis by simp
  next
    case False
    then show ?thesis
      using Cons [of "cur @ [c]"] by (simp add: Let_def)
  qed
qed

lemma spec_tokens_dropWhile: "spec_tokens (dropWhile isWhiteSpace s) = spec_tokens s"
  by (simp add: spec_tokens.simps [of "dropWhile isWhiteSpace s"] spec_tokens.simps [of s])

lemma split_spec_tokens:
  "s \<noteq> [] \<Longrightarrow> \<not> isWhiteSpace (hd s) \<Longrightarrow> \<not> isWhiteSpace (last s) \<Longrightarrow> splitWs [] s = spec_tokens s"
proof (induction "length s" arbitrary: s rule: less_induct)
  case less
  define w where "w = takeWhile (\<lambda>c. \<not> isWhiteSpace c) s"
  define r where "r = dropWhile (\<lambda>c. \<not> isWhiteSpace c) s"
  have s: "dropWhile isWhiteSpace s = s"
    using less.prems by (cases s) auto
  have wr: "s = w @ r" by (simp add: w_def r_def)
  have w: "w \<noteq> []" using less.prems by (cases s) (auto simp: w_def)
  have st: "spec_tokens s = w # spec_tokens r"
    using less.prems(1) by (simp add: spec_tokens.simps [of s] s w_def r_def)
  show ?case
  proof (cases "r = []")
    case True
    then show ?thesis
      using st by (simp add: splitWs_run [of "[]" s] w_def [symmetric] r_def [symmetric] spec_tokens.simps [of "[]"])
  next
    case False
    define s' where "s' = dropWhile isWhiteSpace r"
    have lr: "last r = last s" using wr False by simp
    have "\<not> isWhiteSpace (last r)" using lr less.prems by simp
    then have "\<exists>x\<in>set r. \<not> isWhiteSpace x" using False last_in_set by blast
    then have s'ne: "s' \<noteq> []" by (simp add: s'_def)
    then have hd: "\<not> isWhiteSpace (hd s')" unfolding s'_def by (metis hd_dropWhile)
    obtain p where p: "r = p @ s'" unfolding s'_def by (metis takeWhile_dropWhile_id)
    have ls: "last s' = last s" using p s'ne lr by simp
    have len: "length s' < length s"
      using wr w p by simp
    have "splitWs [] s' = spec_tokens s'"
      using less.hyps [OF len s'ne hd] ls less.prems by simp
    then show ?thesis
      using st False
      by (simp add: splitWs_run [of "[]" s] w_def [symmetric] r_def [symmetric] s'_def [symmetric]
          spec_tokens_dropWhile [of r, symmetric])
  qed
qed

lemma trim_ends:
  assumes "trim s \<noteq> []"
  shows "\<not> isWhiteSpace (hd (trim s)) \<and> \<not> isWhiteSpace (last (trim s))"
proof -
  define a where "a = dropWhile isWhiteSpace s"
  define b where "b = dropWhile isWhiteSpace (rev a)"
  have t: "trim s = rev b" by (simp add: trim_def a_def b_def)
  have bne: "b \<noteq> []" using assms t by simp
  have hb: "\<not> isWhiteSpace (hd b)" using bne unfolding b_def by (metis hd_dropWhile)
  have l: "last (trim s) = hd b" using t bne by (simp add: last_rev)
  obtain q where q: "rev a = q @ b" unfolding b_def by (metis takeWhile_dropWhile_id)
  have ane: "a \<noteq> []" using q bne by auto
  have ha: "\<not> isWhiteSpace (hd a)" using ane unfolding a_def by (metis hd_dropWhile)
  have "a = rev b @ rev q" using q by (metis rev_append rev_rev_ident)
  then have "hd a = hd (rev b)" using bne by simp
  then show ?thesis using ha hb l t by simp
qed

lemma split_trim: "trim s \<noteq> [] \<Longrightarrow> split (trim s) = spec_tokens (trim s)"
  unfolding split_def using trim_ends [of s] by (intro split_spec_tokens) simp_all

subsection \<open>The whole string\<close>

lemma parseLectureTime_tokens:
  "parseLectureTime s = concat (map (parseStep []) (spec_tokens (trim s)))"
proof (cases "trim s = []")
  case True
  then show ?thesis
    by (simp add: parseLectureTime_def spec_tokens.simps [of "[]"])
next
  case False
  then show ?thesis
    by (simp add: parseLectureTime_def split_trim foldl_parseStep)
qed


lemma parseLectureTime_exact:
  assumes "list_all (\<lambda>sl. endMinutes sl \<le> 2 ^ 54) (spec_parse s)"
  shows "parseLectureTime s = spec_parse s"
proof -
  have b: "endMinutes x \<le> 2 ^ 54"
    if "tok \<in> set (spec_tokens (trim s))" "spec_slot tok = Some x" for tok x
  proof -
    have "x \<in> set (spec_parse s)"
      using that by (force simp: spec_parse_def List.map_filter_def)
    then show ?thesis using assms by (simp add: list_all_iff)
  qed
  have t: "parseStep [] tok = (case spec_slot tok of None \<Rightarrow> [] | Some x \<Rightarrow> [x])"
    if "tok \<in> set (spec_tokens (trim s))" for tok
    using b [OF that] by (rule token_exact)
  have m: "map (parseStep []) (spec_tokens (trim s)) =
        map (\<lambda>t. case spec_slot t of None \<Rightarrow> [] | Some x \<Rightarrow> [x]) (spec_tokens (trim s))"
    by (rule map_cong [OF refl]) (rule t)
  show ?thesis
    unfolding parseLectureTime_tokens spec_parse_def map_filter_concat m ..
qed

lemma parsed_positive:
  assumes "list_all (\<lambda>sl. endMinutes sl \<le> 2 ^ 54) (spec_parse s)"
    and "sl \<in> set (parseLectureTime s)"
  shows "endMinutes sl = startMinutes sl + 90"
proof -
  have "sl \<in> set (spec_parse s)"
    using assms by (simp add: parseLectureTime_exact)
  then obtain tok where "spec_slot tok = Some sl"
    by (auto simp: spec_parse_def List.map_filter_def)
  then show ?thesis
    by (elim spec_slot_Some) simp
qed





lemma trim_id: "s \<noteq> [] \<Longrightarrow> \<not> isWhiteSpace (hd s) \<Longrightarrow> \<not> isWhiteSpace (last s) \<Longrightarrow> trim s = s"
proof -
  assume a: "s \<noteq> []" "\<not> isWhiteSpace (hd s)" "\<not> isWhiteSpace (last s)"
  have 1: "dropWhile isWhiteSpace s = s" using a by (cases s) auto
  have "rev s \<noteq> []" "\<not> isWhiteSpace (hd (rev s))" using a by (simp_all add: hd_rev)
  then have 2: "dropWhile isWhiteSpace (rev s) = rev s" by (cases "rev s") auto
  show ?thesis by (simp add: trim_def 1 2)
qed

text \<open>
  Claim C10, as amended. The parser puts no upper bound on the period: for every natural
  number \<open>k\<close>, the token of a day label and the decimal digits of \<open>k\<close> parses to one slot on
  the day of the label, and from \<open>k = 11\<close> on that slot ends after minute 1440, past
  midnight. While \<open>540 + 90 * k\<close> is at most \<open>2 ^ 54\<close>, where the arithmetic of the source is
  exact, the slot starts at \<open>450 + 90 * k\<close> and ends 90 minutes later.
\<close>

theorem parseLectureTime_unbounded:
  "isDayLabel c \<Longrightarrow>
     (\<exists>d st en. DAY_MAP [c] = Some d \<and>
        parseLectureTime (c # digitsOf k) =
          [\<lparr>LectureSlot.day = d, startMinutes = st, endMinutes = en\<rparr>] \<and>
        (11 \<le> k \<longrightarrow> 1440 < en) \<and>
        (540 + 90 * int k \<le> 2 ^ 54 \<longrightarrow> st = 450 + 90 * int k \<and> en = st + 90))"
proof -
  assume c: "isDayLabel c"
  let ?s = "c # digitsOf k"
  let ?t = "periodToMinutes (toDouble (int k))"
  have dg: "list_all isDigit (digitsOf k)" "digitsOf k \<noteq> []" "decimalValue (digitsOf k) = int k"
    using digitsOf_digits [of k] by simp_all
  obtain d where d: "spec_day c = Some d" using c spec_day_Some_iff [of c] by auto
  have nows: "\<forall>x\<in>set ?s. \<not> isWhiteSpace x"
    using c dg(1) isDayLabel_not_ws isDigit_not_ws by (auto simp: list_all_iff)
  have "last ?s \<in> set ?s" by (rule last_in_set) simp
  then have t: "trim ?s = ?s" using nows by (intro trim_id) auto
  have sp: "split ?s = [?s]" using splitWs_no_ws [OF nows, of "[]"] by (simp add: split_def)
  have r: "parseLectureTime ?s =
     [\<lparr>LectureSlot.day = d, startMinutes = fst ?t, endMinutes = snd ?t\<rparr>]"
    using parseStep_match [OF d dg(2) dg(1), of "[]"]
    by (simp add: parseLectureTime_def t sp dg(3))
  have l: "11 \<le> k \<longrightarrow> 1440 < snd ?t"
    using periodToMinutes_late [of "int k"] by simp
  have e: "540 + 90 * int k \<le> 2 ^ 54 \<longrightarrow> fst ?t = 450 + 90 * int k \<and> snd ?t = fst ?t + 90"
    using periodToMinutes_exact [of "int k"] by simp
  show ?thesis
    using r l e d by (intro exI [of _ d] exI [of _ "fst ?t"] exI [of _ "snd ?t"])
      (simp add: DAY_MAP_spec_day)
qed

theorem parseLectureTime_unbounded_witness:
  "isDayLabel 0xD1A0 \<and> (11::nat) \<le> 12 \<and> 540 + 90 * int 12 \<le> 2 ^ 54 \<and>
   digitsOf 12 = [0x31, 0x32] \<and>
   parseLectureTime [0xD1A0, 0x31, 0x32] =
     [\<lparr>LectureSlot.day = 5, startMinutes = 1530, endMinutes = 1620\<rparr>] \<and>
   1440 < endMinutes (hd (parseLectureTime (0xD1A0 # digitsOf 12)))"
proof -
  have l: "isDayLabel 0xD1A0" by (simp add: isDayLabel_def)
  have g: "digitsOf 12 = [0x31, 0x32]" by code_simp
  have m: "DAY_MAP [0xD1A0] = Some 5" by (simp add: DAY_MAP_def)
  obtain d st en where w: "DAY_MAP [0xD1A0] = Some d"
    "parseLectureTime (0xD1A0 # digitsOf 12) =
       [\<lparr>LectureSlot.day = d, startMinutes = st, endMinutes = en\<rparr>]"
    "(11::nat) \<le> 12 \<longrightarrow> 1440 < en"
    "540 + 90 * int 12 \<le> 2 ^ 54 \<longrightarrow> st = 450 + 90 * int 12 \<and> en = st + 90"
    using parseLectureTime_unbounded [OF l, of 12] by blast
  have "d = 5" "st = 1530" "en = 1620" using w(1,4) m by simp_all
  then show ?thesis using w(2) l g by simp
qed

text \<open>
  Claim C10 as stated fails where the arithmetic of the source rounds: for the period
  \<open>k = 200159983438689\<close> the slot starts at 18014398509482456 and ends 88 minutes later,
  where \<open>450 + 90 * k\<close> is 18014398509482460.
\<close>

theorem parseLectureTime_unbounded_counterexample:
  "digitsOf 200159983438689 =
     [0x32, 0x30, 0x30, 0x31, 0x35, 0x39, 0x39, 0x38, 0x33, 0x34, 0x33, 0x38, 0x36, 0x38, 0x39] \<and>
   parseLectureTime (0xC6D4 # digitsOf 200159983438689) =
     [\<lparr>LectureSlot.day = 0, startMinutes = 18014398509482456,
       endMinutes = 18014398509482544\<rparr>] \<and>
   450 + 90 * int 200159983438689 = 18014398509482460 \<and>
   startMinutes (hd (parseLectureTime (0xC6D4 # digitsOf 200159983438689))) \<noteq>
     450 + 90 * int 200159983438689"
proof -
  have g: "digitsOf 200159983438689 =
     [0x32, 0x30, 0x30, 0x31, 0x35, 0x39, 0x39, 0x38, 0x33, 0x34, 0x33, 0x38, 0x36, 0x38, 0x39]"
    by (simp add: digitsOf.simps)
  have a: "parseLectureTime
     [0xC6D4, 0x32, 0x30, 0x30, 0x31, 0x35, 0x39, 0x39, 0x38, 0x33, 0x34, 0x33, 0x38, 0x36, 0x38, 0x39] =
     [\<lparr>LectureSlot.day = 0, startMinutes = 18014398509482456,
       endMinutes = 18014398509482544\<rparr>]"
    by code_simp
  show ?thesis unfolding g a by simp
qed

section \<open>The window bounds\<close>

lemma collectSlot_allSlots:
  "allSlots (foldl (collectSlot e) c sl) =
     allSlots c @ map (\<lambda>slot. \<lparr>start = startMinutes slot, end = endMinutes slot,
                              day = LectureSlot.day slot, entry = e\<rparr>) sl"
  by (induction sl arbitrary: c) (simp_all add: collectSlot_def)

lemma collectSlot_minStart:
  "minStart (foldl (collectSlot e) c sl) = fold min (map startMinutes sl) (minStart c)"
  by (induction sl arbitrary: c) (simp_all add: collectSlot_def min.commute)

lemma collectSlot_maxEnd:
  "maxEnd (foldl (collectSlot e) c sl) = fold max (map endMinutes sl) (maxEnd c)"
  by (induction sl arbitrary: c) (simp_all add: collectSlot_def max.commute)

lemma collectSlot_daysSet:
  "daysSet (foldl (collectSlot e) c sl) = foldl setAdd (daysSet c) (map LectureSlot.day sl)"
  by (induction sl arbitrary: c) (simp_all add: collectSlot_def)

lemma collectEntry_minStart:
  "minStart (foldl collectEntry c es) = fold min (map startMinutes (parsedSlots es)) (minStart c)"
  by (induction es arbitrary: c) (simp_all add: parsedSlots_def collectEntry_def collectSlot_minStart)

lemma collectEntry_maxEnd:
  "maxEnd (foldl collectEntry c es) = fold max (map endMinutes (parsedSlots es)) (maxEnd c)"
  by (induction es arbitrary: c) (simp_all add: parsedSlots_def collectEntry_def collectSlot_maxEnd)

lemma collectEntry_allSlots_length:
  "length (allSlots (foldl collectEntry c es)) = length (allSlots c) + length (parsedSlots es)"
  by (induction es arbitrary: c) (simp_all add: parsedSlots_def collectEntry_def collectSlot_allSlots)

lemma collect_allSlots:
  "allSlots (foldl collectEntry c es) = allSlots c @
     concat (map (\<lambda>e. map (\<lambda>slot. \<lparr>start = startMinutes slot, end = endMinutes slot,
                              day = LectureSlot.day slot, entry = e\<rparr>) (parseLectureTime (ganguisigan e))) es)"
  by (induction es arbitrary: c) (simp_all add: collectEntry_def collectSlot_allSlots)

lemma collect_positive:
  assumes "\<forall>sl \<in> set (parsedSlots es). startMinutes sl < endMinutes sl"
    and "x \<in> set (allSlots (collect es))"
  shows "start x < end x"
proof -
  obtain e sl where "e \<in> set es" "sl \<in> set (parseLectureTime (ganguisigan e))"
    "x = \<lparr>start = startMinutes sl, end = endMinutes sl, day = LectureSlot.day sl, entry = e\<rparr>"
    using assms(2) by (auto simp: collect_def collect_allSlots)
  moreover from this have "sl \<in> set (parsedSlots es)"
    by (auto simp: parsedSlots_def)
  ultimately show ?thesis using assms(1) by simp
qed

lemma collect_minStart:
  "minStart (collect es) = Min (insert DEFAULT_START_MINUTES (startMinutes ` set (parsedSlots es)))"
  using Min.set_eq_fold [of DEFAULT_START_MINUTES "map startMinutes (parsedSlots es)"]
  by (simp add: collect_def collectEntry_minStart)

lemma collect_maxEnd:
  "maxEnd (collect es) = Max (insert DEFAULT_END_MINUTES (endMinutes ` set (parsedSlots es)))"
  using Max.set_eq_fold [of DEFAULT_END_MINUTES "map endMinutes (parsedSlots es)"]
  by (simp add: collect_def collectEntry_maxEnd)

lemma collect_allSlots_empty: "allSlots (collect es) = [] \<longleftrightarrow> parsedSlots es = []"
  using collectEntry_allSlots_length [of _ es] by (simp add: collect_def flip: length_0_conv)

text \<open>
  Claim C1, as amended. With no custom start and end, the window starts at the least of
  09:00 (540) and the start minutes of all parsed slots, and ends at the greatest of 18:00
  (1080) and their end minutes: the bounds of the slots, extended to cover the default
  window. With no parsed slot it is the default window, 540 to 1080.
\<close>

theorem gridBounds_default:
  "(parsedSlots es \<noteq> [] \<longrightarrow>
      gridStart (TimetableView es None None inc) =
        Min (insert DEFAULT_START_MINUTES (startMinutes ` set (parsedSlots es))) \<and>
      gridEnd (TimetableView es None None inc) =
        Max (insert DEFAULT_END_MINUTES (endMinutes ` set (parsedSlots es)))) \<and>
   (parsedSlots es = [] \<longrightarrow>
      gridStart (TimetableView es None None inc) = 540 \<and>
      gridEnd (TimetableView es None None inc) = 1080)"
  by (simp add: TimetableView_def Let_def gridStartOf_def gridEndOf_def collect_allSlots_empty
      collect_minStart collect_maxEnd DEFAULT_START_MINUTES_def DEFAULT_END_MINUTES_def)

lemma parsed_entryMon4:
  "parsedSlots [entryMon4] = [\<lparr>LectureSlot.day = 0, startMinutes = 810, endMinutes = 900\<rparr>]"
  by (simp add: parsedSlots_def entryMon4_def mkEntry_def) code_simp

text \<open>
  Claim C1 as stated fails: the one slot of \<open>Mon4\<close> runs from 810 to 900, and the window
  without overrides is 540 to 1080, not 810 to 900.
\<close>

theorem gridBounds_counterexample:
  "parsedSlots [entryMon4] \<noteq> [] \<and>
   gridStart (TimetableView [entryMon4] None None None) \<noteq>
     Min (startMinutes ` set (parsedSlots [entryMon4])) \<and>
   gridEnd (TimetableView [entryMon4] None None None) \<noteq>
     Max (endMinutes ` set (parsedSlots [entryMon4])) \<and>
   Min (startMinutes ` set (parsedSlots [entryMon4])) = 810 \<and>
   gridStart (TimetableView [entryMon4] None None None) = 540 \<and>
   Max (endMinutes ` set (parsedSlots [entryMon4])) = 900 \<and>
   gridEnd (TimetableView [entryMon4] None None None) = 1080"
proof -
  have c: "collect [entryMon4] =
    \<lparr>allSlots = [mkSlot entryMon4 0 810 900], minStart = 540, maxEnd = 1080,
     daysSet = [0, 1, 2, 3, 4]\<rparr>"
    using parsed_entryMon4
    by (simp add: collect_def collectEntry_def parsedSlots_def collectSlot_def mkSlot_def
        DEFAULT_START_MINUTES_def DEFAULT_END_MINUTES_def DEFAULT_DAYS_def setAdd_def)
  show ?thesis
    by (simp add: parsed_entryMon4 TimetableView_def Let_def c gridStartOf_def gridEndOf_def)
qed

theorem gridBounds_default_witness:
  "parsedSlots [entryMon4] \<noteq> [] \<and>
   gridStart (TimetableView [entryMon4] None None None) = min 540 810 \<and>
   gridEnd (TimetableView [entryMon4] None None None) = max 1080 900 \<and>
   parsedSlots [] = [] \<and>
   gridStart (TimetableView [] None None None) = 540 \<and>
   gridEnd (TimetableView [] None None None) = 1080"
proof -
  have e: "parsedSlots [] = []" by (simp add: parsedSlots_def)
  show ?thesis
    using gridBounds_default [of "[entryMon4]" None] gridBounds_default [of "[]" None] e
    by (simp add: parsed_entryMon4 DEFAULT_START_MINUTES_def DEFAULT_END_MINUTES_def)
qed

section \<open>Grouping by a key\<close>

lemma mapPush_fst:
  "map fst (mapPush m k v) = (if k \<in> set (map fst m) then map fst m else map fst m @ [k])"
  by (induction m k v rule: mapPush.induct) auto

lemma mapPush_distinct: "distinct (map fst m) \<Longrightarrow> distinct (map fst (mapPush m k v))"
  by (simp add: mapPush_fst)

lemma mapPush_map_of:
  "map_of (mapPush m k v) =
     (map_of m)(k \<mapsto> (case map_of m k of None \<Rightarrow> [v] | Some vs \<Rightarrow> vs @ [v]))"
  by (induction m k v rule: mapPush.induct) (auto simp: fun_eq_iff)

lemma foldl_mapPush:
  "distinct (map fst m) \<Longrightarrow>
     distinct (map fst (foldl (\<lambda>m s. mapPush m (f s) s) m xs)) \<and>
     (\<forall>k. map_of (foldl (\<lambda>m s. mapPush m (f s) s) m xs) k =
        (if k \<in> f ` set xs
         then Some ((case map_of m k of None \<Rightarrow> [] | Some vs \<Rightarrow> vs) @ filter (\<lambda>s. f s = k) xs)
         else map_of m k))"
proof (induction xs arbitrary: m)
  case Nil
  then show ?case by simp
next
  case (Cons x xs)
  let ?m = "mapPush m (f x) x"
  have d: "distinct (map fst ?m)"
    using Cons.prems by (rule mapPush_distinct)
  note ih = Cons.IH [OF d]
  have "map_of (foldl (\<lambda>m s. mapPush m (f s) s) ?m xs) k =
        (if k \<in> f ` set (x # xs)
         then Some ((case map_of m k of None \<Rightarrow> [] | Some vs \<Rightarrow> vs) @ filter (\<lambda>s. f s = k) (x # xs))
         else map_of m k)" for k
  proof (cases "k = f x")
    case True
    have e: "filter (\<lambda>s. f s = f x) xs = []" if "f x \<notin> f ` set xs"
      using that by (force simp: filter_empty_conv image_iff)
    show ?thesis
      using ih True e by (cases "map_of m (f x)") (simp_all add: mapPush_map_of)
  next
    case False
    then have "f x \<noteq> k" by simp
    then show ?thesis
      using ih False by (simp add: mapPush_map_of)
  qed
  then show ?case using ih by simp
qed

lemma groups_map_of:
  "map_of (foldl (\<lambda>m s. mapPush m (f s) s) [] xs) k =
     (if k \<in> f ` set xs then Some (filter (\<lambda>s. f s = k) xs) else None)"
  using foldl_mapPush [of "[]" f xs] by simp

lemma groups_distinct: "distinct (map fst (foldl (\<lambda>m s. mapPush m (f s) s) [] xs))"
  using foldl_mapPush [of "[]" f xs] by simp

lemma groups_member:
  assumes "(k, g) \<in> set (foldl (\<lambda>m s. mapPush m (f s) s) [] xs)"
  shows "g = filter (\<lambda>s. f s = k) xs \<and> g \<noteq> []"
proof -
  have "map_of (foldl (\<lambda>m s. mapPush m (f s) s) [] xs) k = Some g"
    using assms groups_distinct [of f xs] by simp
  then have "k \<in> f ` set xs" "g = filter (\<lambda>s. f s = k) xs"
    by (auto simp: groups_map_of split: if_splits)
  then show ?thesis by (auto simp: filter_empty_conv)
qed

lemma filter_concat_groups:
  assumes "distinct (map fst m)"
    and "\<And>k' g y. (k', g) \<in> set m \<Longrightarrow> y \<in> set (F k' g) \<Longrightarrow> K y = k'"
  shows "filter (\<lambda>y. K y = k) (concat (map (\<lambda>(k', g). F k' g) m)) =
           (case map_of m k of None \<Rightarrow> [] | Some g \<Rightarrow> F k g)"
  using assms
proof (induction m)
  case Nil
  show ?case by simp
next
  case (Cons p m)
  obtain k' g where p: "p = (k', g)" by (cases p)
  have ih: "filter (\<lambda>y. K y = k) (concat (map (\<lambda>(k', g). F k' g) m)) =
           (case map_of m k of None \<Rightarrow> [] | Some g \<Rightarrow> F k g)"
    using Cons by auto
  have all: "\<forall>y \<in> set (F k' g). K y = k'" using Cons.prems(2) p by auto
  show ?case
  proof (cases "k' = k")
    case True
    then have "map_of m k = None" using Cons.prems(1) p
      by (simp add: map_of_eq_None_iff)
    moreover have "filter (\<lambda>y. K y = k) (F k' g) = F k g" using all True by simp
    ultimately show ?thesis using p True ih by simp
  next
    case False
    then have "filter (\<lambda>y. K y = k) (F k' g) = []" using all by (auto simp: filter_empty_conv)
    then show ?thesis using p False ih by simp
  qed
qed

lemma key_runs: "y \<in> set (runs e d a b gs) \<Longrightarrow> entry y = e \<and> day y = d"
  by (induction gs arbitrary: a b) (auto split: if_splits)

lemma key_mergeGroup:
  assumes "\<forall>s \<in> set g. key s = k" "y \<in> set (mergeGroup g)"
  shows "key y = k"
proof (cases "sort_key start g")
  case Nil
  then show ?thesis using assms by (simp add: mergeGroup_def)
next
  case (Cons x xs)
  then have "x \<in> set g" by (metis list.set_intros(1) set_sort)
  then have "key x = k" using assms by simp
  moreover have "entry y = entry x \<and> day y = day x"
    using assms(2) Cons key_runs by (simp add: mergeGroup_def)
  ultimately show ?thesis by (simp add: key_def)
qed

lemma byEntryDay_nonempty: "(k, g) \<in> set (byEntryDay ss) \<Longrightarrow> g \<noteq> []"
  unfolding byEntryDay_def using groups_member by fastforce

lemma mergeConsecutive_group:
  "filter (\<lambda>y. key y = k) (mergeConsecutiveSlots ss) = mergeGroup (filter (\<lambda>s. key s = k) ss)"
proof -
  have "filter (\<lambda>y. key y = k) (concat (map (\<lambda>(k', g). mergeGroup g) (byEntryDay ss))) =
           (case map_of (byEntryDay ss) k of None \<Rightarrow> [] | Some g \<Rightarrow> mergeGroup g)"
  proof (rule filter_concat_groups)
    show "distinct (map fst (byEntryDay ss))"
      unfolding byEntryDay_def by (rule groups_distinct)
  next
    fix k' g y
    assume "(k', g) \<in> set (byEntryDay ss)" "y \<in> set (mergeGroup g)"
    then show "key y = k'"
      using groups_member [of k' g key ss] key_mergeGroup [of g k' y]
      by (auto simp: byEntryDay_def)
  qed
  moreover have "(case map_of (byEntryDay ss) k of None \<Rightarrow> [] | Some g \<Rightarrow> mergeGroup g) =
     mergeGroup (filter (\<lambda>s. key s = k) ss)"
  proof (cases "k \<in> key ` set ss")
    case True
    then show ?thesis by (simp add: byEntryDay_def groups_map_of)
  next
    case False
    then have "filter (\<lambda>s. key s = k) ss = []" by (auto simp: filter_empty_conv)
    then show ?thesis using False by (simp add: byEntryDay_def groups_map_of mergeGroup_def)
  qed
  ultimately show ?thesis by (simp add: mergeConsecutiveSlots_def)
qed

section \<open>Properties of Stage A\<close>













lemma runs_positive:
  "a < b \<Longrightarrow> \<forall>g \<in> set gs. start g < end g \<Longrightarrow> y \<in> set (runs e d a b gs) \<Longrightarrow> start y < end y"
proof (induction gs arbitrary: a b)
  case Nil
  then show ?case by simp
next
  case (Cons g gs)
  have g: "start g < end g" "\<forall>h \<in> set gs. start h < end h" using Cons.prems(2) by simp_all
  show ?case
  proof (cases "start g = b")
    case True
    then have "a < end g" using Cons.prems(1) g(1) by simp
    then show ?thesis using Cons.IH [of a "end g"] g(2) Cons.prems(3) True by simp
  next
    case False
    then have "y = \<lparr>start = a, end = b, day = d, entry = e\<rparr> \<or> y \<in> set (runs e d (start g) (end g) gs)"
      using Cons.prems(3) by simp
    then show ?thesis
    proof
      assume "y = \<lparr>start = a, end = b, day = d, entry = e\<rparr>"
      then show ?thesis using Cons.prems(1) by simp
    next
      assume "y \<in> set (runs e d (start g) (end g) gs)"
      then show ?thesis using Cons.IH [of "start g" "end g"] g by simp
    qed
  qed
qed

lemma mergeGroup_positive:
  assumes "\<forall>x \<in> set g. start x < end x" "y \<in> set (mergeGroup g)"
  shows "start y < end y"
proof (cases "sort_key start g")
  case Nil
  then show ?thesis using assms(2) by (simp add: mergeGroup_def)
next
  case (Cons x xs)
  have "set (x # xs) = set g" using Cons by (metis set_sort)
  then have "start x < end x" "\<forall>h \<in> set xs. start h < end h" using assms(1) by auto
  then show ?thesis
    using assms(2) Cons runs_positive [of "start x" "end x" xs y "entry x" "day x"]
    by (simp add: mergeGroup_def)
qed

lemma mergeConsecutive_positive:
  assumes "\<forall>s \<in> set ss. start s < end s" "y \<in> set (mergeConsecutiveSlots ss)"
  shows "start y < end y"
proof -
  obtain k g where kg: "(k, g) \<in> set (byEntryDay ss)" "y \<in> set (mergeGroup g)"
    using assms(2) unfolding mergeConsecutiveSlots_def by auto
  have "g = filter (\<lambda>s. key s = k) ss"
    using kg(1) groups_member [of k g key ss] by (simp add: byEntryDay_def)
  then have "\<forall>x \<in> set g. start x < end x" using assms(1) by simp
  then show ?thesis using kg(2) by (rule mergeGroup_positive)
qed

text \<open>
  The intervals of Stage A are non-empty when the parsed slots are, and a parsed slot is
  non-empty when its period is in the range where the arithmetic of the parser is exact
  (lemma \<open>parsed_positive\<close>). Far beyond that range a slot of the source is empty: for the
  period \<open>10 ^ 17\<close> it starts and ends at \<open>9 * 10 ^ 18\<close>.
\<close>

lemma stageA_positive:
  assumes "\<forall>sl \<in> set (parsedSlots es). startMinutes sl < endMinutes sl"
    and "y \<in> set (mergeConsecutiveSlots (allSlots (collect es)))"
  shows "start y < end y"
proof -
  have "\<forall>s \<in> set (allSlots (collect es)). start s < end s"
    using collect_positive [OF assms(1)] by blast
  then show ?thesis
    using assms(2) by (rule mergeConsecutive_positive)
qed

lemma parsed_empty_slot:
  "parseLectureTime (0xC6D4 # 0x31 # replicate 17 0x30) =
     [\<lparr>LectureSlot.day = 0, startMinutes = 9000000000000000000,
       endMinutes = 9000000000000000000\<rparr>]"
  by code_simp




subsection \<open>The groups of Stage A and the runs of a group\<close>

lemma digitsOf_no_hyphen: "0x2D \<notin> set (digitsOf n)"
proof
  assume "0x2D \<in> set (digitsOf n)"
  moreover have "\<forall>c \<in> set (digitsOf n). isDigit c"
    using digitsOf_digits [of n] by (simp add: list_all_iff)
  ultimately have "isDigit 0x2D" by blast
  then show False by (simp add: isDigit_def)
qed

lemma digitsOf_inj:
  assumes "digitsOf m = digitsOf n"
  shows "m = n"
proof -
  have "int m = decimalValue (digitsOf m)" "int n = decimalValue (digitsOf n)"
    using digitsOf_digits [of m] digitsOf_digits [of n] by simp_all
  then have "int m = int n" by (simp only: assms)
  then show ?thesis by simp
qed

lemma last_split:
  "xs @ h # a = ys @ h # b \<Longrightarrow> h \<notin> set a \<Longrightarrow> h \<notin> set b \<Longrightarrow> xs = ys \<and> a = b"
proof (induction xs arbitrary: ys)
  case Nil
  show ?case
  proof (cases ys)
    case Nil
    then show ?thesis using Nil.prems by simp
  next
    case (Cons y ys')
    then have "a = ys' @ h # b" using Nil.prems(1) by simp
    then have "h \<in> set a" by simp
    then show ?thesis using Nil.prems(2) by simp
  qed
next
  case (Cons x xs)
  show ?case
  proof (cases ys)
    case Nil
    then have "b = xs @ h # a" using Cons.prems(1) by simp
    then have "h \<in> set b" by simp
    then show ?thesis using Cons.prems(3) by simp
  next
    case (Cons y ys')
    then have "x = y" "xs @ h # a = ys' @ h # b" using Cons.prems(1) by simp_all
    then show ?thesis using Cons.IH [of ys'] Cons.prems(2,3) Cons by simp
  qed
qed

lemma key_eq_iff:
  "key s = key u \<longleftrightarrow>
     hakjeongbeonho (entry s) @ [0x2D] @ bunban (entry s) =
       hakjeongbeonho (entry u) @ [0x2D] @ bunban (entry u) \<and> day s = day u"
proof
  assume k: "key s = key u"
  have "(hakjeongbeonho (entry s) @ [0x2D] @ bunban (entry s)) @ 0x2D # digitsOf (day s) =
        (hakjeongbeonho (entry u) @ [0x2D] @ bunban (entry u)) @ 0x2D # digitsOf (day u)"
    using k by (simp add: key_def)
  then have "hakjeongbeonho (entry s) @ [0x2D] @ bunban (entry s) =
       hakjeongbeonho (entry u) @ [0x2D] @ bunban (entry u) \<and> digitsOf (day s) = digitsOf (day u)"
    by (rule last_split [OF _ digitsOf_no_hyphen digitsOf_no_hyphen])
  then show "hakjeongbeonho (entry s) @ [0x2D] @ bunban (entry s) =
       hakjeongbeonho (entry u) @ [0x2D] @ bunban (entry u) \<and> day s = day u"
    using digitsOf_inj by blast
next
  assume "hakjeongbeonho (entry s) @ [0x2D] @ bunban (entry s) =
       hakjeongbeonho (entry u) @ [0x2D] @ bunban (entry u) \<and> day s = day u"
  then show "key s = key u" by (simp add: key_def)
qed

lemma unambiguousI:
  assumes "\<And>e f. e \<in> set es \<Longrightarrow> f \<in> set es \<Longrightarrow>
     hakjeongbeonho e @ [0x2D] @ bunban e = hakjeongbeonho f @ [0x2D] @ bunban f \<Longrightarrow>
     hakjeongbeonho e = hakjeongbeonho f \<and> bunban e = bunban f"
  shows "unambiguous es"
proof -
  have "(hakjeongbeonho e @ [0x2D] @ bunban e = hakjeongbeonho f @ [0x2D] @ bunban f) =
        (hakjeongbeonho e = hakjeongbeonho f \<and> bunban e = bunban f)"
    if "e \<in> set es" "f \<in> set es" for e f
  proof
    assume "hakjeongbeonho e @ [0x2D] @ bunban e = hakjeongbeonho f @ [0x2D] @ bunban f"
    then show "hakjeongbeonho e = hakjeongbeonho f \<and> bunban e = bunban f"
      using that by (rule assms [rotated 2])
  next
    assume "hakjeongbeonho e = hakjeongbeonho f \<and> bunban e = bunban f"
    then show "hakjeongbeonho e @ [0x2D] @ bunban e = hakjeongbeonho f @ [0x2D] @ bunban f"
      by simp
  qed
  then show ?thesis
    unfolding unambiguous_def list_all_iff by blast
qed

lemma unambiguousD:
  assumes "unambiguous es" "e \<in> set es" "f \<in> set es"
    and "hakjeongbeonho e @ [0x2D] @ bunban e = hakjeongbeonho f @ [0x2D] @ bunban f"
  shows "hakjeongbeonho e = hakjeongbeonho f \<and> bunban e = bunban f"
proof -
  have "(hakjeongbeonho e @ [0x2D] @ bunban e = hakjeongbeonho f @ [0x2D] @ bunban f) =
        (hakjeongbeonho e = hakjeongbeonho f \<and> bunban e = bunban f)"
    using assms(1,2,3) unfolding unambiguous_def list_all_iff by blast
  then show ?thesis using assms(4) by (rule iffD1)
qed

lemma unambiguous_subset:
  assumes "unambiguous es" "set fs \<subseteq> set es"
  shows "unambiguous fs"
proof (rule unambiguousI)
  fix e f
  assume "e \<in> set fs" "f \<in> set fs"
    and j: "hakjeongbeonho e @ [0x2D] @ bunban e = hakjeongbeonho f @ [0x2D] @ bunban f"
  then have "e \<in> set es" "f \<in> set es" using assms(2) by blast+
  then show "hakjeongbeonho e = hakjeongbeonho f \<and> bunban e = bunban f"
    using j by (rule unambiguousD [OF assms(1)])
qed

lemma unambiguous_sections:
  assumes "\<forall>e \<in> set es. 0x2D \<notin> set (bunban e)"
  shows "unambiguous es"
proof (rule unambiguousI)
  fix e f
  assume ef: "e \<in> set es" "f \<in> set es"
    and j: "hakjeongbeonho e @ [0x2D] @ bunban e = hakjeongbeonho f @ [0x2D] @ bunban f"
  have n: "0x2D \<notin> set (bunban e)" "0x2D \<notin> set (bunban f)"
    using assms ef by blast+
  have "hakjeongbeonho e @ 0x2D # bunban e = hakjeongbeonho f @ 0x2D # bunban f"
    using j by simp
  then show "hakjeongbeonho e = hakjeongbeonho f \<and> bunban e = bunban f"
    using n by (rule last_split)
qed

lemma unambiguous_key:
  assumes "unambiguous (map entry ss)" "s \<in> set ss" "u \<in> set ss"
  shows "key s = key u \<longleftrightarrow> entryDay s = entryDay u"
proof -
  have m: "entry s \<in> set (map entry ss)" "entry u \<in> set (map entry ss)"
    using assms(2,3) by simp_all
  have i: "hakjeongbeonho (entry s) = hakjeongbeonho (entry u) \<and> bunban (entry s) = bunban (entry u)"
    if "hakjeongbeonho (entry s) @ [0x2D] @ bunban (entry s) =
       hakjeongbeonho (entry u) @ [0x2D] @ bunban (entry u)"
    using unambiguousD [OF assms(1) m that] .
  show ?thesis
  proof
    assume "key s = key u"
    then have j: "hakjeongbeonho (entry s) @ [0x2D] @ bunban (entry s) =
       hakjeongbeonho (entry u) @ [0x2D] @ bunban (entry u)" and d: "day s = day u"
      unfolding key_eq_iff by (rule conjunct1, rule conjunct2)
    show "entryDay s = entryDay u"
      using i [OF j] d by (simp add: entryDay_def)
  next
    assume "entryDay s = entryDay u"
    then have "hakjeongbeonho (entry s) = hakjeongbeonho (entry u)"
      "bunban (entry s) = bunban (entry u)" "day s = day u"
      by (simp_all add: entryDay_def)
    then show "key s = key u" by (simp add: key_def)
  qed
qed

lemma adjacentRuns_hd:
  "adjacentRuns (x # xs) \<noteq> [] \<and> hd (adjacentRuns (x # xs)) \<noteq> [] \<and>
   hd (hd (adjacentRuns (x # xs))) = x"
  by (cases xs) (simp_all split: list.split)

lemma adjacentRuns_concat: "concat (adjacentRuns xs) = xs"
proof (induction xs rule: adjacentRuns.induct)
  case 1
  show ?case by simp
next
  case (2 x)
  show ?case by simp
next
  case (3 x y ys)
  obtain r rs where r: "adjacentRuns (y # ys) = r # rs"
    using adjacentRuns_hd [of y ys] by (cases "adjacentRuns (y # ys)") auto
  show ?case
  proof (cases "end x = start y")
    case True
    then show ?thesis using 3(1) r by simp
  next
    case False
    then show ?thesis using 3(2) by simp
  qed
qed

lemma adjacentRuns_pair:
  "adjacentRuns [a, b] = (if end a = start b then [[a, b]] else [[a], [b]])"
  by simp

lemma runs_adjacentRuns:
  "runs e d a (end x) xs =
     (case adjacentRuns (x # xs) of
        [] \<Rightarrow> []
      | r # rs \<Rightarrow> \<lparr>start = a, end = end (last r), day = d, entry = e\<rparr> #
          map (\<lambda>r. \<lparr>start = start (hd r), end = end (last r), day = d, entry = e\<rparr>) rs)"
proof (induction xs arbitrary: a x)
  case Nil
  show ?case by simp
next
  case (Cons y ys)
  obtain r rs where r: "adjacentRuns (y # ys) = r # rs" "r \<noteq> []" "hd r = y"
    using adjacentRuns_hd [of y ys] by (cases "adjacentRuns (y # ys)") auto
  show ?case
  proof (cases "start y = end x")
    case True
    then show ?thesis using Cons [of a y] r by simp
  next
    case False
    then have "end x \<noteq> start y" by simp
    then show ?thesis using Cons [of "start y" y] r False by simp
  qed
qed

lemma mergeGroup_runs:
  "mergeGroup g =
     map (runInterval (hd (sort_key start g))) (adjacentRuns (sort_key start g))"
proof (cases "sort_key start g")
  case Nil
  then show ?thesis by (simp add: mergeGroup_def)
next
  case (Cons x xs)
  obtain r rs where r: "adjacentRuns (x # xs) = r # rs" "hd r = x"
    using adjacentRuns_hd [of x xs] by (cases "adjacentRuns (x # xs)") auto
  show ?thesis
    using runs_adjacentRuns [of "entry x" "day x" "start x" x xs] r Cons
    by (simp add: mergeGroup_def runInterval_def)
qed

lemma mergeGroup_entryDay:
  assumes "y \<in> set (mergeGroup g)"
  shows "\<exists>s \<in> set g. entry y = entry s \<and> day y = day s"
proof (cases "sort_key start g")
  case Nil
  then show ?thesis using assms by (simp add: mergeGroup_def)
next
  case (Cons x xs)
  then have "x \<in> set g" by (metis list.set_intros(1) set_sort)
  moreover have "entry y = entry x \<and> day y = day x"
    using assms Cons key_runs by (simp add: mergeGroup_def)
  ultimately show ?thesis by blast
qed

lemma mergeConsecutive_origin:
  assumes "y \<in> set (mergeConsecutiveSlots ss)"
  shows "\<exists>s \<in> set ss. entry y = entry s \<and> day y = day s"
proof -
  obtain k g where kg: "(k, g) \<in> set (byEntryDay ss)" "y \<in> set (mergeGroup g)"
    using assms unfolding mergeConsecutiveSlots_def by auto
  have "g = filter (\<lambda>s. key s = k) ss"
    using kg(1) groups_member [of k g key ss] by (simp add: byEntryDay_def)
  then have "set g \<subseteq> set ss" by auto
  then show ?thesis using mergeGroup_entryDay [OF kg(2)] by blast
qed

lemma unambiguous_stageA:
  assumes "unambiguous es"
  shows "unambiguous (map entry (mergeConsecutiveSlots (allSlots (collect es))))"
proof (rule unambiguous_subset [OF assms], rule subsetI)
  fix e
  assume "e \<in> set (map entry (mergeConsecutiveSlots (allSlots (collect es))))"
  then obtain y where "y \<in> set (mergeConsecutiveSlots (allSlots (collect es)))" "e = entry y"
    by auto
  then obtain s where "s \<in> set (allSlots (collect es))" "e = entry s"
    using mergeConsecutive_origin [of y "allSlots (collect es)"] by auto
  then show "e \<in> set es"
    by (auto simp: collect_def collect_allSlots)
qed

lemma mergeConsecutive_entryDay:
  assumes "unambiguous (map entry ss)"
  shows "filter (\<lambda>y. entryDay y = t) (mergeConsecutiveSlots ss) =
     mergeGroup (filter (\<lambda>s. entryDay s = t) ss)"
proof (cases "\<exists>s \<in> set ss. entryDay s = t")
  case False
  then have "filter (\<lambda>s. entryDay s = t) ss = []"
    by (simp add: filter_empty_conv)
  moreover have "filter (\<lambda>y. entryDay y = t) (mergeConsecutiveSlots ss) = []"
    using False mergeConsecutive_origin [of _ ss]
    by (fastforce simp: filter_empty_conv entryDay_def)
  ultimately show ?thesis by (simp add: mergeGroup_def)
next
  case True
  then obtain s0 where s0: "s0 \<in> set ss" "entryDay s0 = t" by blast
  have i: "filter (\<lambda>s. entryDay s = t) ss = filter (\<lambda>s. key s = key s0) ss"
    using unambiguous_key [OF assms _ s0(1)] s0(2) by (intro filter_cong refl) simp
  have "entryDay y = t \<longleftrightarrow> key y = key s0" if y: "y \<in> set (mergeConsecutiveSlots ss)" for y
  proof -
    obtain s where s: "s \<in> set ss" "entry y = entry s" "day y = day s"
      using mergeConsecutive_origin [OF y] by blast
    have "entryDay y = entryDay s" "key y = key s"
      using s(2,3) by (simp_all add: entryDay_def key_def)
    then show ?thesis
      using unambiguous_key [OF assms s(1) s0(1)] s0(2) by simp
  qed
  then have "filter (\<lambda>y. entryDay y = t) (mergeConsecutiveSlots ss) =
     filter (\<lambda>y. key y = key s0) (mergeConsecutiveSlots ss)"
    by (intro filter_cong refl)
  then show ?thesis
    by (simp add: i mergeConsecutive_group)
qed

text \<open>
  Claim C3, as amended. Let the identifiers of the entries be unambiguous, and take the
  slots of one course code, section code and day, sorted by start as Stage A sorts them
  (stably). The intervals that Stage A produces for them are one for each maximal run of
  neighbours in that order in which every slot ends exactly where the next one starts: two
  neighbours merge exactly when the end of the earlier is the start of the later, and any
  gap, even of one minute, separates them. The interval of a run goes from the start of
  its first slot to the end of its last.
\<close>

theorem mergeConsecutive_adjacent:
  "unambiguous (map entry ss) \<Longrightarrow>
     filter (\<lambda>y. entryDay y = t) (mergeConsecutiveSlots ss) =
       map (runInterval (hd (sort_key start (filter (\<lambda>s. entryDay s = t) ss))))
         (adjacentRuns (sort_key start (filter (\<lambda>s. entryDay s = t) ss))) \<and>
     concat (adjacentRuns (sort_key start (filter (\<lambda>s. entryDay s = t) ss))) =
       sort_key start (filter (\<lambda>s. entryDay s = t) ss)"
  by (simp add: mergeConsecutive_entryDay mergeGroup_runs adjacentRuns_concat)

theorem mergeConsecutive_adjacent_witness:
  "unambiguous (map entry
     [mkSlot entryA 1 720 810, mkSlot entryB 1 630 720, mkSlot entryA 1 630 720,
      mkSlot entryA 1 1080 1170, mkSlot entryA 1 1170 1260, mkSlot entryA 1 1260 1350,
      mkSlot entryA 1 1351 1441]) \<and>
   adjacentRuns (sort_key start (filter (\<lambda>s. entryDay s = entryDay (mkSlot entryA 1 630 720))
     [mkSlot entryA 1 720 810, mkSlot entryB 1 630 720, mkSlot entryA 1 630 720,
      mkSlot entryA 1 1080 1170, mkSlot entryA 1 1170 1260, mkSlot entryA 1 1260 1350,
      mkSlot entryA 1 1351 1441])) =
     [[mkSlot entryA 1 630 720, mkSlot entryA 1 720 810],
      [mkSlot entryA 1 1080 1170, mkSlot entryA 1 1170 1260, mkSlot entryA 1 1260 1350],
      [mkSlot entryA 1 1351 1441]] \<and>
   filter (\<lambda>y. entryDay y = entryDay (mkSlot entryA 1 630 720))
     (mergeConsecutiveSlots
       [mkSlot entryA 1 720 810, mkSlot entryB 1 630 720, mkSlot entryA 1 630 720,
        mkSlot entryA 1 1080 1170, mkSlot entryA 1 1170 1260, mkSlot entryA 1 1260 1350,
        mkSlot entryA 1 1351 1441]) =
     [mkSlot entryA 1 630 810, mkSlot entryA 1 1080 1350, mkSlot entryA 1 1351 1441]"
proof -
  let ?ss = "[mkSlot entryA 1 720 810, mkSlot entryB 1 630 720, mkSlot entryA 1 630 720,
      mkSlot entryA 1 1080 1170, mkSlot entryA 1 1170 1260, mkSlot entryA 1 1260 1350,
      mkSlot entryA 1 1351 1441]"
  let ?t = "entryDay (mkSlot entryA 1 630 720)"
  have u: "unambiguous (map entry ?ss)"
    by (simp add: unambiguous_def mkSlot_def entryA_def entryB_def mkEntry_def)
  have g: "sort_key start (filter (\<lambda>s. entryDay s = ?t) ?ss) =
     [mkSlot entryA 1 630 720, mkSlot entryA 1 720 810, mkSlot entryA 1 1080 1170,
      mkSlot entryA 1 1170 1260, mkSlot entryA 1 1260 1350, mkSlot entryA 1 1351 1441]"
    by code_simp
  have r: "adjacentRuns
     [mkSlot entryA 1 630 720, mkSlot entryA 1 720 810, mkSlot entryA 1 1080 1170,
      mkSlot entryA 1 1170 1260, mkSlot entryA 1 1260 1350, mkSlot entryA 1 1351 1441] =
     [[mkSlot entryA 1 630 720, mkSlot entryA 1 720 810],
      [mkSlot entryA 1 1080 1170, mkSlot entryA 1 1170 1260, mkSlot entryA 1 1260 1350],
      [mkSlot entryA 1 1351 1441]]"
    by (simp add: mkSlot_def)
  show ?thesis
    using mergeConsecutive_adjacent [OF u, of ?t] u
    unfolding g r by (simp add: runInterval_def mkSlot_def)
qed

text \<open>
  Claim C3 as stated fails when two entries share an identifier. Course \<open>A\<close> section \<open>B-1\<close>
  with the schedule string \<open>Tue1 Tue3\<close> has the slots from 540 to 630 and from 720 to 810,
  90 minutes apart; course \<open>A-B\<close> section \<open>1\<close> has \<open>Tue2\<close>, from 630 to 720. The three slots
  have one key, and Stage A produces the single interval from 540 to 810 for them, under
  the first entry.
\<close>

theorem mergeConsecutive_adjacent_counterexample:
  "allSlots (collect [entryX [0xD654, 0x31, 0x20, 0xD654, 0x33], entryY [0xD654, 0x32]]) =
     [mkSlot (entryX [0xD654, 0x31, 0x20, 0xD654, 0x33]) 1 540 630,
      mkSlot (entryX [0xD654, 0x31, 0x20, 0xD654, 0x33]) 1 720 810,
      mkSlot (entryY [0xD654, 0x32]) 1 630 720] \<and>
   filter (\<lambda>s. entryDay s = entryDay (mkSlot (entryX [0xD654, 0x31, 0x20, 0xD654, 0x33]) 1 540 630))
     (allSlots (collect [entryX [0xD654, 0x31, 0x20, 0xD654, 0x33], entryY [0xD654, 0x32]])) =
     [mkSlot (entryX [0xD654, 0x31, 0x20, 0xD654, 0x33]) 1 540 630,
      mkSlot (entryX [0xD654, 0x31, 0x20, 0xD654, 0x33]) 1 720 810] \<and>
   end (mkSlot (entryX [0xD654, 0x31, 0x20, 0xD654, 0x33]) 1 540 630) \<noteq>
     start (mkSlot (entryX [0xD654, 0x31, 0x20, 0xD654, 0x33]) 1 720 810) \<and>
   mergeConsecutiveSlots
     (allSlots (collect [entryX [0xD654, 0x31, 0x20, 0xD654, 0x33], entryY [0xD654, 0x32]])) =
     [mkSlot (entryX [0xD654, 0x31, 0x20, 0xD654, 0x33]) 1 540 810]"
proof -
  let ?x = "entryX [0xD654, 0x31, 0x20, 0xD654, 0x33]"
  let ?y = "entryY [0xD654, 0x32]"
  have a: "allSlots (collect [?x, ?y]) =
     [mkSlot ?x 1 540 630, mkSlot ?x 1 720 810, mkSlot ?y 1 630 720]"
    by code_simp
  have f: "filter (\<lambda>s. entryDay s = entryDay (mkSlot ?x 1 540 630))
     [mkSlot ?x 1 540 630, mkSlot ?x 1 720 810, mkSlot ?y 1 630 720] =
     [mkSlot ?x 1 540 630, mkSlot ?x 1 720 810]"
    by code_simp
  have m: "mergeConsecutiveSlots [mkSlot ?x 1 540 630, mkSlot ?x 1 720 810, mkSlot ?y 1 630 720] =
     [mkSlot ?x 1 540 810]"
    by code_simp
  show ?thesis unfolding a f m by (simp add: mkSlot_def)
qed

section \<open>Properties of Stage B\<close>

subsection \<open>The groups of a day are the connected components\<close>




































subsection \<open>The entries of a block\<close>









subsection \<open>The slots of a group\<close>




subsection \<open>The display block of a group\<close>






section \<open>Properties of the layout\<close>





lemma day_position: "day (position gs ge s) = day s"
  by (simp add: position_def Let_def)

text \<open>
  Claim C9. Every positioned block of the output lies on a day of the resolved day list.
  With an explicit included-day set, every positioned block lies on an included day, and
  a display block on any other day is not in the output, wherever it lies in time.
\<close>

theorem blocks_within_days:
  "(\<forall>b \<in> set (blocks (TimetableView es us ue inc)). day b \<in> set (days (TimetableView es us ue inc))) \<and>
   (\<forall>b \<in> set (blocks (TimetableView es us ue (Some ds))). day b \<in> set ds) \<and>
   (\<forall>s \<in> set bs. day s \<notin> set ds \<longrightarrow> position gs ge s \<notin> set (positionedBlocks gs ge ds bs))"
proof -
  have out: "\<forall>b \<in> set (positionedBlocks gs' ge' ds' bs'). day b \<in> set ds'" for gs' ge' ds' bs'
    by (auto simp: positionedBlocks_def day_position)
  have "\<forall>s \<in> set bs. day s \<notin> set ds \<longrightarrow> position gs ge s \<notin> set (positionedBlocks gs ge ds bs)"
    using out [of gs ge ds bs] day_position [of gs ge] by metis
  moreover have "\<forall>b \<in> set (blocks (TimetableView es us ue inc)). day b \<in> set (days (TimetableView es us ue inc))"
    using out by (simp add: TimetableView_def Let_def)
  moreover have "\<forall>b \<in> set (blocks (TimetableView es us ue (Some ds))). day b \<in> set ds"
    using out [of _ _ "sort ds"] by (simp add: TimetableView_def Let_def daysOf_def)
  ultimately show ?thesis by blast
qed

theorem blocks_within_days_witness:
  "blocks (TimetableView [entryB] None None (Some [1])) \<noteq> [] \<and>
   hd (blocks (TimetableView [entryB] None None (Some [1]))) \<in>
     set (blocks (TimetableView [entryB] None None (Some [1]))) \<and>
   day (hd (blocks (TimetableView [entryB] None None (Some [1])))) \<in> set [1] \<and>
   mkBlock 5 540 630 \<in> set [mkBlock 1 720 810, mkBlock 5 540 630] \<and>
   day (mkBlock 5 540 630) \<notin> set [1] \<and>
   0 < heightPercent (position 540 1080 (mkBlock 5 540 630)) \<and>
   position 540 1080 (mkBlock 5 540 630) \<notin>
     set (positionedBlocks 540 1080 [1] [mkBlock 1 720 810, mkBlock 5 540 630])"
proof -
  let ?V = "TimetableView [entryB] None None (Some [1])"
  have ne: "blocks ?V \<noteq> []" by code_simp
  then have m: "hd (blocks ?V) \<in> set (blocks ?V)" by simp
  have a: "day (hd (blocks ?V)) \<in> set [1]"
    using blocks_within_days [of "[entryB]" None None "Some [1]" "[1]"] m by blast
  have i: "mkBlock 5 540 630 \<in> set [mkBlock 1 720 810, mkBlock 5 540 630]" by simp
  have d: "day (mkBlock 5 540 630) \<notin> set [1]" by (simp add: mkBlock_def)
  have h: "0 < heightPercent (position 540 1080 (mkBlock 5 540 630))" by code_simp
  have "position 540 1080 (mkBlock 5 540 630) \<notin>
     set (positionedBlocks 540 1080 [1] [mkBlock 1 720 810, mkBlock 5 540 630])"
    using blocks_within_days [of _ _ _ _ "[1]" "[mkBlock 1 720 810, mkBlock 5 540 630]" 540 1080] i d
    by blast
  then show ?thesis using ne m a i d h by simp
qed

end
